theory Spec2Isabelle
  imports Main "HOL-Library.Word"
begin

section \<open>The control-block lifetime protocol of \<open>shared-ptr.h\<close>\<close>

text \<open>
  A shallow embedding of \<open>shared_ptr\<close>, \<open>weak_ptr\<close>, \<open>make_shared\<close> and the control
  blocks of \<open>namespace details\<close>. The heap of control blocks, the handle objects of the
  program and the log of the calls the library makes into user code (deleters, pointee
  destructors) and into the deallocator are an explicit state, passed through every
  function. Templates are erased: a \<open>T*\<close> is a \<open>pointer\<close>, a deleter object is named by
  a number.
\<close>

subsection \<open>Data\<close>

type_synonym addr = nat
  \<comment> \<open>the identity of one \<open>new\<close>-allocated control block; never handed out twice\<close>

type_synonym deleter = nat

type_synonym size_t = "64 word"

datatype pointer =
  nullptr
  | Object nat  \<comment> \<open>a pointee allocated by the caller\<close>
  | Storage_of addr  \<comment> \<open>\<open>&data\<close> of the \<open>obj_block\<close> at that address\<close>

datatype block_kind =
  Ptr_block pointer deleter  \<comment> \<open>\<open>ptr_block<T, D>\<close>: members \<open>ptr\<close>, \<open>deleter\<close>\<close>
  | Obj_block  \<comment> \<open>\<open>obj_block<T>\<close>: member \<open>data\<close>\<close>

record control_block =
  strong_ref :: size_t
  weak_ref :: size_t
  kind :: block_kind

datatype cell = Live control_block | Freed

datatype event =
  Unlink addr  \<comment> \<open>the virtual call \<open>unlink()\<close> on that block\<close>
  | Deleter_call deleter pointer  \<comment> \<open>\<open>deleter(ptr)\<close>\<close>
  | Destroy_in_place addr  \<comment> \<open>\<open>reinterpret_cast<T*>(&data)->~T()\<close> of that block\<close>
  | Delete_this addr  \<comment> \<open>\<open>delete this\<close> of that block\<close>

record handle =
  cb :: "addr option"  \<comment> \<open>\<open>details::control_block* cb\<close>, \<open>None\<close> for \<open>nullptr\<close>\<close>
  ptr :: pointer  \<comment> \<open>\<open>T* ptr\<close>\<close>

text \<open>
  \<open>shared_ptr<T>\<close> and \<open>weak_ptr<T>\<close> have the same two members; both are a \<open>handle\<close>.
  The program's handle objects live in two tables, indexed by the order of their
  construction; an object whose lifetime has ended is \<open>None\<close>.
\<close>

record state =
  cells :: "cell list"
  trace :: "event list"
  sps :: "handle option list"
  wps :: "handle option list"

datatype failure =
  Undefined_behaviour  \<comment> \<open>a read or write through a dangling or wild pointer, or of a dead object\<close>
  | Thrown state  \<comment> \<open>an exception leaves the function; the state it leaves behind\<close>

type_synonym 'a result = "failure + 'a"

fun and_then :: "'a result \<Rightarrow> ('a \<Rightarrow> 'b result) \<Rightarrow> 'b result" where
  "and_then (Inl e) f = Inl e"
| "and_then (Inr x) f = f x"

type_synonym user_code = "event \<Rightarrow> state \<Rightarrow> state result"
  \<comment> \<open>what the body of a deleter or of a pointee's destructor does to the state when called\<close>

definition no_user_code :: user_code where
  "no_user_code e s = Inr s"

definition inert :: "user_code \<Rightarrow> bool" where
  "inert U = (\<forall>e s. U e s = Inr s)"

definition init :: state where
  "init = \<lparr>cells = [], trace = [], sps = [], wps = []\<rparr>"

subsection \<open>\<open>details::control_block\<close>\<close>

definition block_at :: "state \<Rightarrow> addr \<Rightarrow> control_block result" where
  "block_at s a =
     (if a < length (cells s)
      then (case cells s ! a of Live b \<Rightarrow> Inr b | Freed \<Rightarrow> Inl Undefined_behaviour)
      else Inl Undefined_behaviour)"

definition put_block :: "addr \<Rightarrow> control_block \<Rightarrow> state \<Rightarrow> state" where
  "put_block a b s = s\<lparr>cells := (cells s)[a := Live b]\<rparr>"

definition log :: "event \<Rightarrow> state \<Rightarrow> state" where
  "log e s = s\<lparr>trace := trace s @ [e]\<rparr>"

definition new :: "control_block \<Rightarrow> state \<Rightarrow> addr \<times> state" where
  "new b s = (length (cells s), s\<lparr>cells := cells s @ [Live b]\<rparr>)"

definition delete_this :: "addr \<Rightarrow> state \<Rightarrow> state" where
  "delete_this a s = log (Delete_this a) (s\<lparr>cells := (cells s)[a := Freed]\<rparr>)"

definition ptr_block :: "pointer \<Rightarrow> deleter \<Rightarrow> control_block" where
  "ptr_block p d = \<lparr>strong_ref = 1, weak_ref = 0, kind = Ptr_block p d\<rparr>"

definition obj_block :: control_block where
  "obj_block = \<lparr>strong_ref = 1, weak_ref = 0, kind = Obj_block\<rparr>"

definition get_ptr :: "addr \<Rightarrow> pointer" where
  "get_ptr a = Storage_of a"

definition inc_strong_ref :: "addr \<Rightarrow> state \<Rightarrow> state result" where
  "inc_strong_ref a s =
     and_then (block_at s a) (\<lambda>b. Inr (put_block a (b\<lparr>strong_ref := strong_ref b + 1\<rparr>) s))"

definition inc_weak_ref :: "addr \<Rightarrow> state \<Rightarrow> state result" where
  "inc_weak_ref a s =
     and_then (block_at s a) (\<lambda>b. Inr (put_block a (b\<lparr>weak_ref := weak_ref b + 1\<rparr>) s))"

definition call_deleter :: "user_code \<Rightarrow> deleter \<Rightarrow> pointer \<Rightarrow> state \<Rightarrow> state result" where
  "call_deleter U d p s = U (Deleter_call d p) (log (Deleter_call d p) s)"

definition unlink :: "user_code \<Rightarrow> addr \<Rightarrow> state \<Rightarrow> state result" where
  "unlink U a s =
     and_then (block_at s a) (\<lambda>b.
       case kind b of
         Ptr_block p d \<Rightarrow> call_deleter U d p (log (Unlink a) s)
       | Obj_block \<Rightarrow> U (Destroy_in_place a) (log (Destroy_in_place a) (log (Unlink a) s)))"

definition dec_strong_ref :: "user_code \<Rightarrow> addr \<Rightarrow> state \<Rightarrow> state result" where
  "dec_strong_ref U a s =
     and_then (block_at s a) (\<lambda>b.
       let s1 = put_block a (b\<lparr>strong_ref := strong_ref b - 1\<rparr>) s in
       and_then (if strong_ref b - 1 = 0 then unlink U a s1 else Inr s1) (\<lambda>s2.
         and_then (block_at s2 a) (\<lambda>b2.
           if strong_ref b2 = 0 \<and> weak_ref b2 = 0 then Inr (delete_this a s2) else Inr s2)))"

definition dec_weak_ref :: "addr \<Rightarrow> state \<Rightarrow> state result" where
  "dec_weak_ref a s =
     and_then (block_at s a) (\<lambda>b.
       let s1 = put_block a (b\<lparr>weak_ref := weak_ref b - 1\<rparr>) s in
       and_then (block_at s1 a) (\<lambda>b1.
         if strong_ref b1 = 0 \<and> weak_ref b1 = 0 then Inr (delete_this a s1) else Inr s1))"

definition get_strong_ref_count :: "addr \<Rightarrow> state \<Rightarrow> size_t result" where
  "get_strong_ref_count a s = and_then (block_at s a) (\<lambda>b. Inr (strong_ref b))"

subsection \<open>\<open>shared_ptr\<close>: constructors, destructor and observers, on handle values\<close>

definition shared_ptr_default :: handle where
  "shared_ptr_default = \<lparr>cb = None, ptr = nullptr\<rparr>"

definition shared_ptr_of_block :: "addr \<Rightarrow> handle" where
  "shared_ptr_of_block a = \<lparr>cb = Some a, ptr = get_ptr a\<rparr>"

text \<open>
  \<open>shared_ptr(Y* ptr, D&& deleter)\<close>. \<open>ok\<close> tells whether the \<open>new\<close> expression of the
  member initialiser succeeds; when it throws, the handler of the function-try-block
  calls the deleter and rethrows.
\<close>

definition shared_ptr_raw ::
  "user_code \<Rightarrow> bool \<Rightarrow> pointer \<Rightarrow> deleter \<Rightarrow> state \<Rightarrow> (handle \<times> state) result" where
  "shared_ptr_raw U ok p d s =
     (if ok
      then (case new (ptr_block p d) s of (a, s1) \<Rightarrow> Inr (\<lparr>cb = Some a, ptr = p\<rparr>, s1))
      else and_then (call_deleter U d p s) (\<lambda>s1. Inl (Thrown s1)))"

definition shared_ptr_alias :: "handle \<Rightarrow> pointer \<Rightarrow> state \<Rightarrow> (handle \<times> state) result" where
  "shared_ptr_alias other p s =
     (case cb other of
        Some a \<Rightarrow> and_then (inc_strong_ref a s) (\<lambda>s1. Inr (\<lparr>cb = cb other, ptr = p\<rparr>, s1))
      | None \<Rightarrow> Inr (\<lparr>cb = cb other, ptr = p\<rparr>, s))"

definition shared_ptr_copy :: "handle \<Rightarrow> state \<Rightarrow> (handle \<times> state) result" where
  "shared_ptr_copy other s =
     (case cb other of
        Some a \<Rightarrow> and_then (inc_strong_ref a s) (\<lambda>s1. Inr (\<lparr>cb = cb other, ptr = ptr other\<rparr>, s1))
      | None \<Rightarrow> Inr (\<lparr>cb = cb other, ptr = ptr other\<rparr>, s))"

definition shared_ptr_move :: "handle \<Rightarrow> handle \<times> handle" where
  "shared_ptr_move other = (\<lparr>cb = cb other, ptr = ptr other\<rparr>, \<lparr>cb = None, ptr = nullptr\<rparr>)"
  \<comment> \<open>the new handle, and what is left in \<open>other\<close>\<close>

definition shared_ptr_dtor :: "user_code \<Rightarrow> handle \<Rightarrow> state \<Rightarrow> state result" where
  "shared_ptr_dtor U h s = (case cb h of Some a \<Rightarrow> dec_strong_ref U a s | None \<Rightarrow> Inr s)"

definition get :: "handle \<Rightarrow> pointer" where
  "get h = ptr h"

definition to_bool :: "handle \<Rightarrow> bool" where
  "to_bool h = (get h \<noteq> nullptr)"

definition op_eq :: "handle \<Rightarrow> handle \<Rightarrow> bool" where
  "op_eq a b = (ptr a = ptr b)"

definition op_neq :: "handle \<Rightarrow> handle \<Rightarrow> bool" where
  "op_neq a b = (ptr a \<noteq> ptr b)"

definition use_count :: "handle \<Rightarrow> state \<Rightarrow> size_t result" where
  "use_count h s = (case cb h of Some a \<Rightarrow> get_strong_ref_count a s | None \<Rightarrow> Inr 0)"

definition swap_handles :: "handle \<Rightarrow> handle \<Rightarrow> handle \<times> handle" where
  "swap_handles this other =
     (\<lparr>cb = cb other, ptr = ptr other\<rparr>, \<lparr>cb = cb this, ptr = ptr this\<rparr>)"

subsection \<open>\<open>weak_ptr\<close> on handle values\<close>

definition weak_ptr_default :: handle where
  "weak_ptr_default = \<lparr>cb = None, ptr = nullptr\<rparr>"

definition weak_ptr_copy :: "handle \<Rightarrow> state \<Rightarrow> (handle \<times> state) result" where
  "weak_ptr_copy other s =
     (case cb other of
        Some a \<Rightarrow> and_then (inc_weak_ref a s) (\<lambda>s1. Inr (\<lparr>cb = cb other, ptr = ptr other\<rparr>, s1))
      | None \<Rightarrow> Inr (\<lparr>cb = cb other, ptr = ptr other\<rparr>, s))"

definition weak_ptr_dtor :: "handle \<Rightarrow> state \<Rightarrow> state result" where
  "weak_ptr_dtor h s = (case cb h of Some a \<Rightarrow> dec_weak_ref a s | None \<Rightarrow> Inr s)"

definition lock :: "handle \<Rightarrow> state \<Rightarrow> (handle \<times> state) result" where
  "lock w s =
     (case cb w of
        None \<Rightarrow> Inr (shared_ptr_default, s)
      | Some a \<Rightarrow>
          and_then (get_strong_ref_count a s) (\<lambda>n.
            if n = 0 then Inr (shared_ptr_default, s)
            else and_then (inc_strong_ref a s) (\<lambda>s1. Inr (\<lparr>cb = cb w, ptr = ptr w\<rparr>, s1))))"

subsection \<open>\<open>make_shared\<close>\<close>

datatype construction = Bad_alloc | Ctor_throws | Constructed

text \<open>
  \<open>new details::obj_block<T>(args...)\<close>: the allocation may fail; the constructor of
  \<open>T\<close>, run by the placement \<open>new\<close> in the body of \<open>obj_block\<close>'s constructor, may
  throw, and then the \<open>new\<close> expression gives the storage back before the exception goes
  on. No \<open>shared_ptr\<close> exists yet in either case.
\<close>

definition make_shared :: "construction \<Rightarrow> state \<Rightarrow> (handle \<times> state) result" where
  "make_shared c s =
     (case c of
        Bad_alloc \<Rightarrow> Inl (Thrown s)
      | Ctor_throws \<Rightarrow> Inl (Thrown (s\<lparr>cells := cells s @ [Freed]\<rparr>))
      | Constructed \<Rightarrow> (case new obj_block s of (a, s1) \<Rightarrow> Inr (shared_ptr_of_block a, s1)))"

subsection \<open>Handle objects\<close>

definition sp_at :: "state \<Rightarrow> nat \<Rightarrow> handle result" where
  "sp_at s i =
     (if i < length (sps s)
      then (case sps s ! i of Some h \<Rightarrow> Inr h | None \<Rightarrow> Inl Undefined_behaviour)
      else Inl Undefined_behaviour)"

definition wp_at :: "state \<Rightarrow> nat \<Rightarrow> handle result" where
  "wp_at s i =
     (if i < length (wps s)
      then (case wps s ! i of Some h \<Rightarrow> Inr h | None \<Rightarrow> Inl Undefined_behaviour)
      else Inl Undefined_behaviour)"

definition set_sp :: "nat \<Rightarrow> handle \<Rightarrow> state \<Rightarrow> state" where
  "set_sp i h s = s\<lparr>sps := (sps s)[i := Some h]\<rparr>"

definition set_wp :: "nat \<Rightarrow> handle \<Rightarrow> state \<Rightarrow> state" where
  "set_wp i h s = s\<lparr>wps := (wps s)[i := Some h]\<rparr>"

definition end_sp :: "nat \<Rightarrow> state \<Rightarrow> state" where
  "end_sp i s = s\<lparr>sps := (sps s)[i := None]\<rparr>"

definition end_wp :: "nat \<Rightarrow> state \<Rightarrow> state" where
  "end_wp i s = s\<lparr>wps := (wps s)[i := None]\<rparr>"

definition begin_sp :: "(handle \<times> state) result \<Rightarrow> state result" where
  "begin_sp r = and_then r (\<lambda>(h, s). Inr (s\<lparr>sps := sps s @ [Some h]\<rparr>))"

definition begin_wp :: "(handle \<times> state) result \<Rightarrow> state result" where
  "begin_wp r = and_then r (\<lambda>(h, s). Inr (s\<lparr>wps := wps s @ [Some h]\<rparr>))"

subsection \<open>\<open>shared_ptr\<close>: the members that change \<open>*this\<close>\<close>

text \<open>
  \<open>this\<close> and \<open>other\<close> are the numbers of two \<open>shared_ptr\<close> objects, so that
  \<open>this != &other\<close> is \<open>this \<noteq> other\<close>. Each assignment and \<open>reset\<close> builds a temporary,
  swaps it with \<open>*this\<close> and destroys the temporary at the end of the full expression.
\<close>

definition swap_into ::
  "user_code \<Rightarrow> nat \<Rightarrow> handle \<Rightarrow> state \<Rightarrow> state result" where
  "swap_into U this tmp s =
     and_then (sp_at s this) (\<lambda>t.
       case swap_handles tmp t of (tmp', t') \<Rightarrow> shared_ptr_dtor U tmp' (set_sp this t' s))"
  \<comment> \<open>\<open>tmp.swap(*this)\<close>, then \<open>~shared_ptr()\<close> of \<open>tmp\<close>\<close>

definition copy_assign :: "user_code \<Rightarrow> nat \<Rightarrow> nat \<Rightarrow> state \<Rightarrow> state result" where
  "copy_assign U this other s =
     and_then (sp_at s this) (\<lambda>t. and_then (sp_at s other) (\<lambda>src.
       if this \<noteq> other
       then and_then (shared_ptr_copy src s) (\<lambda>(tmp, s1). swap_into U this tmp s1)
       else Inr s))"

definition move_assign :: "user_code \<Rightarrow> nat \<Rightarrow> nat \<Rightarrow> state \<Rightarrow> state result" where
  "move_assign U this other s =
     and_then (sp_at s this) (\<lambda>t. and_then (sp_at s other) (\<lambda>src.
       if this \<noteq> other
       then (case shared_ptr_move src of (tmp, src') \<Rightarrow> swap_into U this tmp (set_sp other src' s))
       else Inr s))"

definition reset :: "user_code \<Rightarrow> nat \<Rightarrow> state \<Rightarrow> state result" where
  "reset U this s = swap_into U this shared_ptr_default s"

definition reset_raw ::
  "user_code \<Rightarrow> bool \<Rightarrow> nat \<Rightarrow> pointer \<Rightarrow> deleter \<Rightarrow> state \<Rightarrow> state result" where
  "reset_raw U ok this new_ptr new_deleter s =
     and_then (sp_at s this) (\<lambda>t.
       and_then (shared_ptr_raw U ok new_ptr new_deleter s) (\<lambda>(tmp, s1). swap_into U this tmp s1))"

definition swap :: "nat \<Rightarrow> nat \<Rightarrow> state \<Rightarrow> state result" where
  "swap this other s =
     and_then (sp_at s this) (\<lambda>t. and_then (sp_at s other) (\<lambda>src.
       case swap_handles t src of (t', src') \<Rightarrow> Inr (set_sp other src' (set_sp this t' s))))"

definition destroy :: "user_code \<Rightarrow> nat \<Rightarrow> state \<Rightarrow> state result" where
  "destroy U this s = and_then (sp_at s this) (\<lambda>t. shared_ptr_dtor U t (end_sp this s))"
  \<comment> \<open>the object's lifetime ends when its destructor starts\<close>

definition move_construct :: "nat \<Rightarrow> state \<Rightarrow> state result" where
  "move_construct other s =
     and_then (sp_at s other) (\<lambda>src.
       case shared_ptr_move src of (h, src') \<Rightarrow> begin_sp (Inr (h, set_sp other src' s)))"

subsection \<open>\<open>weak_ptr\<close>: the members that change \<open>*this\<close>\<close>

definition weak_swap_into :: "nat \<Rightarrow> handle \<Rightarrow> state \<Rightarrow> state result" where
  "weak_swap_into this tmp s =
     and_then (wp_at s this) (\<lambda>t.
       case swap_handles tmp t of (tmp', t') \<Rightarrow> weak_ptr_dtor tmp' (set_wp this t' s))"

definition weak_copy_assign :: "nat \<Rightarrow> nat \<Rightarrow> state \<Rightarrow> state result" where
  "weak_copy_assign this other s =
     and_then (wp_at s this) (\<lambda>t. and_then (wp_at s other) (\<lambda>src.
       if this \<noteq> other
       then and_then (weak_ptr_copy src s) (\<lambda>(tmp, s1). weak_swap_into this tmp s1)
       else Inr s))"

definition weak_move_assign :: "nat \<Rightarrow> nat \<Rightarrow> state \<Rightarrow> state result" where
  "weak_move_assign this other s =
     and_then (wp_at s this) (\<lambda>t. and_then (wp_at s other) (\<lambda>src.
       if this \<noteq> other
       then (case shared_ptr_move src of (tmp, src') \<Rightarrow> weak_swap_into this tmp (set_wp other src' s))
       else Inr s))"

definition weak_assign_shared :: "nat \<Rightarrow> nat \<Rightarrow> state \<Rightarrow> state result" where
  "weak_assign_shared this other s =
     and_then (wp_at s this) (\<lambda>t. and_then (sp_at s other) (\<lambda>src.
       and_then (weak_ptr_copy src s) (\<lambda>(tmp, s1). weak_swap_into this tmp s1)))"

definition weak_swap :: "nat \<Rightarrow> nat \<Rightarrow> state \<Rightarrow> state result" where
  "weak_swap this other s =
     and_then (wp_at s this) (\<lambda>t. and_then (wp_at s other) (\<lambda>src.
       case swap_handles t src of (t', src') \<Rightarrow> Inr (set_wp other src' (set_wp this t' s))))"

definition weak_destroy :: "nat \<Rightarrow> state \<Rightarrow> state result" where
  "weak_destroy this s = and_then (wp_at s this) (\<lambda>t. weak_ptr_dtor t (end_wp this s))"

definition weak_move_construct :: "nat \<Rightarrow> state \<Rightarrow> state result" where
  "weak_move_construct other s =
     and_then (wp_at s other) (\<lambda>src.
       case shared_ptr_move src of (h, src') \<Rightarrow> begin_wp (Inr (h, set_wp other src' s)))"

subsection \<open>Programs over handles\<close>

datatype op =
  Sp_default  \<comment> \<open>\<open>shared_ptr()\<close>, \<open>shared_ptr(nullptr)\<close>\<close>
  | Sp_raw bool pointer deleter  \<comment> \<open>\<open>shared_ptr(p, d)\<close>; whether \<open>new\<close> succeeds\<close>
  | Sp_alias nat pointer  \<comment> \<open>\<open>shared_ptr(other, p)\<close>\<close>
  | Sp_copy nat
  | Sp_move nat
  | Sp_copy_assign nat nat  \<comment> \<open>\<open>this\<close>, then \<open>other\<close>\<close>
  | Sp_move_assign nat nat
  | Sp_destroy nat
  | Sp_reset nat
  | Sp_reset_raw bool nat pointer deleter
  | Sp_swap nat nat
  | Make_shared construction
  | Wp_default
  | Wp_copy nat
  | Wp_of_shared nat
  | Wp_move nat
  | Wp_copy_assign nat nat
  | Wp_move_assign nat nat
  | Wp_assign_shared nat nat
  | Wp_destroy nat
  | Wp_swap nat nat
  | Wp_lock nat  \<comment> \<open>the result of \<open>lock()\<close> becomes a new \<open>shared_ptr\<close> object\<close>

fun step :: "user_code \<Rightarrow> op \<Rightarrow> state \<Rightarrow> state result" where
  "step U Sp_default s = begin_sp (Inr (shared_ptr_default, s))"
| "step U (Sp_raw ok p d) s = begin_sp (shared_ptr_raw U ok p d s)"
| "step U (Sp_alias other p) s =
     begin_sp (and_then (sp_at s other) (\<lambda>src. shared_ptr_alias src p s))"
| "step U (Sp_copy other) s =
     begin_sp (and_then (sp_at s other) (\<lambda>src. shared_ptr_copy src s))"
| "step U (Sp_move other) s = move_construct other s"
| "step U (Sp_copy_assign this other) s = copy_assign U this other s"
| "step U (Sp_move_assign this other) s = move_assign U this other s"
| "step U (Sp_destroy this) s = destroy U this s"
| "step U (Sp_reset this) s = reset U this s"
| "step U (Sp_reset_raw ok this p d) s = reset_raw U ok this p d s"
| "step U (Sp_swap this other) s = swap this other s"
| "step U (Make_shared c) s = begin_sp (make_shared c s)"
| "step U Wp_default s = begin_wp (Inr (weak_ptr_default, s))"
| "step U (Wp_copy other) s =
     begin_wp (and_then (wp_at s other) (\<lambda>src. weak_ptr_copy src s))"
| "step U (Wp_of_shared other) s =
     begin_wp (and_then (sp_at s other) (\<lambda>src. weak_ptr_copy src s))"
| "step U (Wp_move other) s = weak_move_construct other s"
| "step U (Wp_copy_assign this other) s = weak_copy_assign this other s"
| "step U (Wp_move_assign this other) s = weak_move_assign this other s"
| "step U (Wp_assign_shared this other) s = weak_assign_shared this other s"
| "step U (Wp_destroy this) s = weak_destroy this s"
| "step U (Wp_swap this other) s = weak_swap this other s"
| "step U (Wp_lock this) s = begin_sp (and_then (wp_at s this) (\<lambda>w. lock w s))"

text \<open>
  A program is a list of operations. An exception that leaves an operation is caught by
  the caller, who carries on in the state the exception left behind.
\<close>

fun run :: "user_code \<Rightarrow> op list \<Rightarrow> state \<Rightarrow> state result" where
  "run U [] s = Inr s"
| "run U (x # xs) s =
     (case step U x s of
        Inr s1 \<Rightarrow> run U xs s1
      | Inl (Thrown s1) \<Rightarrow> run U xs s1
      | Inl Undefined_behaviour \<Rightarrow> Inl Undefined_behaviour)"

section \<open>Properties\<close>

subsection \<open>Vocabulary of the statements\<close>

text \<open>What \<open>unlink\<close> of the block \<open>b\<close> at address \<open>a\<close> logs.\<close>

definition disposal_events :: "addr \<Rightarrow> control_block \<Rightarrow> event list" where
  "disposal_events a b =
     [Unlink a, (case kind b of Ptr_block p d \<Rightarrow> Deleter_call d p | Obj_block \<Rightarrow> Destroy_in_place a)]"

text \<open>
  The state after one strong reference to the live block \<open>b\<close> at \<open>a\<close> has been given up,
  when the deleter and the pointee's destructor leave the state alone.
\<close>

definition released :: "addr \<Rightarrow> control_block \<Rightarrow> state \<Rightarrow> state" where
  "released a b s =
     (if strong_ref b = 1
      then (if weak_ref b = 0
            then s\<lparr>cells := (cells s)[a := Freed],
                   trace := trace s @ disposal_events a b @ [Delete_this a]\<rparr>
            else s\<lparr>cells := (cells s)[a := Live (b\<lparr>strong_ref := 0\<rparr>)],
                   trace := trace s @ disposal_events a b\<rparr>)
      else s\<lparr>cells := (cells s)[a := Live (b\<lparr>strong_ref := strong_ref b - 1\<rparr>)]\<rparr>)"

definition live_blocks :: "state \<Rightarrow> nat" where
  "live_blocks s = length (filter (\<lambda>c. c \<noteq> Freed) (cells s))"

text \<open>
  A state with two blocks: block 0 has one owner and one observer; the pointee of block
  1 has been disposed of and two observers keep the block.
\<close>

definition example_state :: state where
  "example_state =
     \<lparr>cells = [Live \<lparr>strong_ref = 1, weak_ref = 1, kind = Ptr_block (Object 7) 3\<rparr>,
               Live \<lparr>strong_ref = 0, weak_ref = 2, kind = Obj_block\<rparr>],
      trace = [Unlink 1, Destroy_in_place 1],
      sps = [Some \<lparr>cb = Some 0, ptr = Object 7\<rparr>, Some \<lparr>cb = None, ptr = nullptr\<rparr>],
      wps = [Some \<lparr>cb = Some 0, ptr = Object 7\<rparr>, Some \<lparr>cb = Some 1, ptr = Storage_of 1\<rparr>,
             Some \<lparr>cb = Some 1, ptr = Storage_of 1\<rparr>]\<rparr>"

text \<open>
  A state where two \<open>shared_ptr\<close> objects share block 0 (the second one aliasing) and a
  third owns block 1 alone.
\<close>

definition example_shared :: state where
  "example_shared =
     \<lparr>cells = [Live \<lparr>strong_ref = 2, weak_ref = 0, kind = Obj_block\<rparr>,
               Live \<lparr>strong_ref = 1, weak_ref = 0, kind = Ptr_block (Object 7) 3\<rparr>],
      trace = [],
      sps = [Some \<lparr>cb = Some 0, ptr = Storage_of 0\<rparr>, Some \<lparr>cb = Some 0, ptr = Object 5\<rparr>,
             Some \<lparr>cb = Some 1, ptr = Object 7\<rparr>],
      wps = []\<rparr>"

text \<open>
  The result of \<open>dec_weak_ref\<close> on the live block \<open>b\<close> at \<open>a\<close>.
\<close>

definition weak_released :: "addr \<Rightarrow> control_block \<Rightarrow> state \<Rightarrow> state" where
  "weak_released a b s =
     (if strong_ref b = 0 \<and> weak_ref b = 1
      then s\<lparr>cells := (cells s)[a := Freed], trace := trace s @ [Delete_this a]\<rparr>
      else s\<lparr>cells := (cells s)[a := Live (b\<lparr>weak_ref := weak_ref b - 1\<rparr>)]\<rparr>)"

text \<open>
  User code in the pointee's destructor: the pointee of the \<open>obj_block\<close> at \<open>a\<close> has a
  \<open>weak_ptr\<close> member, the object number \<open>w\<close>, which its destructor destroys.
\<close>

definition member_weak_ptr :: "addr \<Rightarrow> nat \<Rightarrow> user_code" where
  "member_weak_ptr a w e s = (if e = Destroy_in_place a then weak_destroy w s else Inr s)"

subsection \<open>The accounting invariant\<close>

text \<open>
  \<open>owners a hs\<close> is the number of live handle objects of the table \<open>hs\<close> that refer to
  the block at \<open>a\<close>. Inside an operation a temporary handle holds a reference too:
  \<open>T\<close> and \<open>W\<close> list the blocks of the temporary owning and weak handles.
\<close>

definition holds :: "addr \<Rightarrow> handle option \<Rightarrow> bool" where
  "holds a h = (case h of Some x \<Rightarrow> cb x = Some a | None \<Rightarrow> False)"

definition owners :: "addr \<Rightarrow> handle option list \<Rightarrow> nat" where
  "owners a hs = length (filter (holds a) hs)"

definition tmp :: "addr option \<Rightarrow> addr list" where
  "tmp c = (case c of Some a \<Rightarrow> [a] | None \<Rightarrow> [])"

definition cell_of :: "state \<Rightarrow> addr \<Rightarrow> cell option" where
  "cell_of s a = (if a < length (cells s) then Some (cells s ! a) else None)"

definition strong_total :: "addr list \<Rightarrow> state \<Rightarrow> addr \<Rightarrow> nat" where
  "strong_total T s a = owners a (sps s) + count_list T a"

definition weak_total :: "addr list \<Rightarrow> state \<Rightarrow> addr \<Rightarrow> nat" where
  "weak_total W s a = owners a (wps s) + count_list W a"

definition unlinks :: "state \<Rightarrow> addr \<Rightarrow> nat" where
  "unlinks s a = count_list (trace s) (Unlink a)"

definition deletes :: "state \<Rightarrow> addr \<Rightarrow> nat" where
  "deletes s a = count_list (trace s) (Delete_this a)"

text \<open>
  The invariant, for one address. A live block counts exactly the handles that refer to
  it, has a reference left, has not been freed, and has been unlinked exactly if its
  strong count is 0. A freed block and an address never allocated have no handle; a freed
  block has been freed at most once, and unlinked as often as freed.
\<close>

definition accounted_at :: "addr list \<Rightarrow> addr list \<Rightarrow> state \<Rightarrow> addr \<Rightarrow> bool" where
  "accounted_at T W s a =
     (case cell_of s a of
        Some (Live b) \<Rightarrow>
          unat (strong_ref b) = strong_total T s a \<and> unat (weak_ref b) = weak_total W s a
          \<and> \<not> (strong_ref b = 0 \<and> weak_ref b = 0)
          \<and> deletes s a = 0 \<and> unlinks s a = (if strong_ref b = 0 then 1 else 0)
      | Some Freed \<Rightarrow>
          strong_total T s a = 0 \<and> weak_total W s a = 0
          \<and> deletes s a \<le> 1 \<and> unlinks s a = deletes s a
      | None \<Rightarrow>
          strong_total T s a = 0 \<and> weak_total W s a = 0 \<and> deletes s a = 0 \<and> unlinks s a = 0)"

definition accounted_with :: "addr list \<Rightarrow> addr list \<Rightarrow> state \<Rightarrow> bool" where
  "accounted_with T W s = (\<forall>a. accounted_at T W s a)"

definition accounted :: "state \<Rightarrow> bool" where
  "accounted s = accounted_with [] [] s"

text \<open>
  An operation ends in \<open>s'\<close> when it returns \<open>s'\<close> or throws and leaves \<open>s'\<close>. It keeps
  the invariant and adds at most one handle object to each table.
\<close>

definition ends :: "state result \<Rightarrow> state \<Rightarrow> bool" where
  "ends r s' = (r = Inr s' \<or> r = Inl (Thrown s'))"

definition kept :: "state \<Rightarrow> state \<Rightarrow> bool" where
  "kept s s' =
     (accounted s' \<and> length (sps s') \<le> length (sps s) + 1
      \<and> length (wps s') \<le> length (wps s) + 1)"

section \<open>Proofs\<close>

subsection \<open>Basic facts\<close>

lemmas model_defs =
  block_at_def put_block_def log_def new_def delete_this_def ptr_block_def obj_block_def
  get_ptr_def inc_strong_ref_def inc_weak_ref_def call_deleter_def unlink_def dec_strong_ref_def
  dec_weak_ref_def get_strong_ref_count_def shared_ptr_default_def shared_ptr_of_block_def
  shared_ptr_raw_def shared_ptr_alias_def shared_ptr_copy_def shared_ptr_move_def
  shared_ptr_dtor_def use_count_def swap_handles_def weak_ptr_default_def weak_ptr_copy_def
  weak_ptr_dtor_def lock_def make_shared_def sp_at_def wp_at_def set_sp_def set_wp_def
  end_sp_def end_wp_def begin_sp_def begin_wp_def swap_into_def copy_assign_def move_assign_def
  reset_def reset_raw_def swap_def destroy_def move_construct_def weak_swap_into_def
  weak_copy_assign_def weak_move_assign_def weak_assign_shared_def weak_swap_def
  weak_destroy_def weak_move_construct_def init_def no_user_code_def Let_def

lemma inertD: "inert U \<Longrightarrow> U e s = Inr s"
  by (simp add: inert_def)

lemma inert_no_user_code: "inert no_user_code"
  by (simp add: inert_def no_user_code_def)

lemma block_atD: "block_at s a = Inr b \<Longrightarrow> a < length (cells s) \<and> cells s ! a = Live b"
  by (auto simp: block_at_def split: if_splits cell.splits)

lemma block_atI: "a < length (cells s) \<Longrightarrow> cells s ! a = Live b \<Longrightarrow> block_at s a = Inr b"
  by (simp add: block_at_def)

lemma block_at_put_block:
  "a < length (cells s) \<Longrightarrow> block_at (put_block a b s) a = Inr b"
  by (simp add: block_at_def put_block_def)

lemma sp_atD: "sp_at s i = Inr h \<Longrightarrow> i < length (sps s) \<and> sps s ! i = Some h"
  by (auto simp: sp_at_def split: if_splits option.splits)

lemma wp_atD: "wp_at s i = Inr h \<Longrightarrow> i < length (wps s) \<and> wps s ! i = Some h"
  by (auto simp: wp_at_def split: if_splits option.splits)

lemma sp_at_set_sp: "i < length (sps s) \<Longrightarrow> sp_at (set_sp i h s) i = Inr h"
  by (simp add: sp_at_def set_sp_def)

lemma sp_at_cong: "sps s' = sps s \<Longrightarrow> sp_at s' i = sp_at s i"
  by (simp add: sp_at_def)

lemma wp_at_cong: "wps s' = wps s \<Longrightarrow> wp_at s' i = wp_at s i"
  by (simp add: wp_at_def)


lemma sp_at_cases: "(\<exists>t. sp_at s i = Inr t) \<or> sp_at s i = Inl Undefined_behaviour"
  by (simp add: sp_at_def split: option.splits)

lemma wp_at_cases: "(\<exists>t. wp_at s i = Inr t) \<or> wp_at s i = Inl Undefined_behaviour"
  by (simp add: wp_at_def split: option.splits)

lemma handle_eta: "\<lparr>cb = cb (h::handle), ptr = ptr h\<rparr> = h"
  by simp

lemma handle_rebuild: "cb (h::handle) = c \<Longrightarrow> \<lparr>cb = c, ptr = ptr h\<rparr> = h"
  by auto

lemma word_dec_eq_0: "(x::size_t) - 1 = 0 \<longleftrightarrow> x = 1"
  by auto

lemma unat_inc:
  fixes x :: size_t
  assumes "x \<noteq> - 1"
  shows "unat (x + 1) = unat x + 1"
proof -
  have "1 + x \<noteq> 0"
    using assms by (simp only: add_eq_0_iff) simp
  then show ?thesis
    using unatSuc[of x] by (simp add: add.commute)
qed

lemma unat_dec:
  fixes x :: size_t
  shows "x \<noteq> 0 \<Longrightarrow> unat (x - 1) = unat x - 1"
  by (rule unat_minus_one)

lemma unat_pos:
  fixes x :: size_t
  shows "0 < unat x \<longleftrightarrow> x \<noteq> 0"
  by (rule unat_gt_0)

lemma unat_max: "unat (- 1 :: size_t) = 2 ^ 64 - 1"
  by (simp add: unsigned_minus_1_eq_mask mask_eq_exp_minus_1)

lemma not_max:
  fixes x :: size_t
  shows "unat x < 2 ^ 64 - 1 \<Longrightarrow> x \<noteq> - 1"
  using unat_max by auto

lemma inc_not_zero:
  fixes x :: size_t
  shows "x \<noteq> - 1 \<Longrightarrow> x + 1 \<noteq> 0"
  by (simp only: add_eq_0_iff2) simp

lemma unat_one_iff:
  fixes x :: size_t
  shows "unat x = Suc 0 \<longleftrightarrow> x = 1"
  by (metis One_nat_def unat_1 word_eq_iff_unsigned)

subsection \<open>One decrement\<close>

text \<open>
  With a deleter and a pointee destructor that leave the state alone, \<open>dec_strong_ref\<close>
  on a live block is \<open>released\<close>; \<open>dec_weak_ref\<close> frees the block exactly when it takes
  the last weak reference of a block without owners.
\<close>

lemma dec_strong_ref_keeps_owned:
  assumes "block_at s a = Inr b" and "strong_ref b \<noteq> 1"
  shows "dec_strong_ref U a s =
    Inr (s\<lparr>cells := (cells s)[a := Live (b\<lparr>strong_ref := strong_ref b - 1\<rparr>)]\<rparr>)"
  using block_atD[OF assms(1)] assms
  by (simp add: dec_strong_ref_def block_at_def put_block_def Let_def word_dec_eq_0)

lemma dec_strong_ref_inert:
  assumes "inert U" "block_at s a = Inr b"
  shows "dec_strong_ref U a s = Inr (released a b s)"
proof -
  from assms(2) have a: "a < length (cells s)" and c: "cells s ! a = Live b"
    by (auto dest: block_atD)
  show ?thesis
  proof (cases "strong_ref b = 1")
    case True
    then show ?thesis using a c assms
      by (cases "kind b")
        (simp_all add: dec_strong_ref_def unlink_def call_deleter_def inertD block_at_def
          put_block_def log_def delete_this_def released_def disposal_events_def Let_def)
  next
    case False
    then show ?thesis using a c assms
      by (simp add: dec_strong_ref_def block_at_def put_block_def released_def Let_def
          word_dec_eq_0)
  qed
qed

lemma dec_weak_ref_live:
  assumes "block_at s a = Inr b"
  shows "dec_weak_ref a s =
     Inr (if strong_ref b = 0 \<and> weak_ref b = 1
          then s\<lparr>cells := (cells s)[a := Freed], trace := trace s @ [Delete_this a]\<rparr>
          else s\<lparr>cells := (cells s)[a := Live (b\<lparr>weak_ref := weak_ref b - 1\<rparr>)]\<rparr>)"
  using block_atD[OF assms]
  by (simp add: dec_weak_ref_def assms block_at_def put_block_def delete_this_def log_def Let_def
      word_dec_eq_0)

lemma dec_weak_ref_weak_released:
  "block_at s a = Inr b \<Longrightarrow> dec_weak_ref a s = Inr (weak_released a b s)"
  by (simp add: dec_weak_ref_live weak_released_def)

lemma released_frame:
  "sps (released a b s) = sps s" "wps (released a b s) = wps s"
  "length (cells (released a b s)) = length (cells s)"
  "a' \<noteq> a \<Longrightarrow> cells (released a b s) ! a' = cells s ! a'"
  by (simp_all add: released_def)

lemma released_block_at: "a' \<noteq> a \<Longrightarrow> block_at (released a b s) a' = block_at s a'"
  by (simp add: block_at_def released_frame)

lemma released_sp_at: "sp_at (released a b s) i = sp_at s i"
  by (simp add: sp_at_def released_frame)

lemma released_trace:
  "\<exists>es. trace (released a b s) = trace s @ es \<and> (\<forall>a'. a' \<noteq> a \<longrightarrow> Unlink a' \<notin> set es \<and> Delete_this a' \<notin> set es)"
  by (auto simp: released_def disposal_events_def split: block_kind.splits)

lemma weak_released_tables:
  "sps (weak_released a b s) = sps s" "wps (weak_released a b s) = wps s"
  by (simp_all add: weak_released_def)

lemma put_block_tables:
  "sps (put_block a b s) = sps s" "wps (put_block a b s) = wps s"
  by (simp_all add: put_block_def)

subsection \<open>Counting handles\<close>

lemma owners_append: "owners a (hs @ [h]) = owners a hs + (if holds a h then 1 else 0)"
  by (simp add: owners_def)

lemma owners_Cons: "owners a (x # xs) = (if holds a x then 1 else 0) + owners a xs"
  by (simp add: owners_def)

lemma owners_update:
  "i < length hs \<Longrightarrow>
   owners a (hs[i := h]) + (if holds a (hs ! i) then 1 else 0) =
   owners a hs + (if holds a h then 1 else 0)"
proof (induction hs arbitrary: i)
  case Nil
  then show ?case by simp
next
  case (Cons x xs)
  show ?case
  proof (cases i)
    case 0
    then show ?thesis by (simp add: owners_Cons)
  next
    case (Suc j)
    with Cons.prems have "j < length xs" by simp
    from Cons.IH[OF this] show ?thesis
      using Suc by (simp add: owners_Cons)
  qed
qed

lemma owners_swap:
  assumes "i < length hs" "j < length hs"
  shows "owners a (hs[i := hs ! j, j := hs ! i]) = owners a hs"
proof (cases "i = j")
  case True
  then show ?thesis by simp
next
  case False
  have 1: "owners a (hs[i := hs ! j]) + (if holds a (hs ! i) then 1 else 0) =
      owners a hs + (if holds a (hs ! j) then 1 else 0)"
    using owners_update[OF assms(1)] .
  have "owners a (hs[i := hs ! j, j := hs ! i]) + (if holds a ((hs[i := hs ! j]) ! j) then 1 else 0) =
      owners a (hs[i := hs ! j]) + (if holds a (hs ! i) then 1 else 0)"
    using owners_update[of j "hs[i := hs ! j]" a "hs ! i"] assms(2) by simp
  then have 2: "owners a (hs[i := hs ! j, j := hs ! i]) + (if holds a (hs ! j) then 1 else 0) =
      owners a (hs[i := hs ! j]) + (if holds a (hs ! i) then 1 else 0)"
    using False by simp
  from 1 2 show ?thesis
    by (simp split: if_splits)
qed

lemma owners_le_length: "owners a hs \<le> length hs"
  by (simp add: owners_def)

lemma owners_pos: "i < length hs \<Longrightarrow> holds a (hs ! i) \<Longrightarrow> 0 < owners a hs"
proof -
  assume "i < length hs" "holds a (hs ! i)"
  then have "hs ! i \<in> set (filter (holds a) hs)"
    by simp
  then have "filter (holds a) hs \<noteq> []"
    by (metis empty_iff empty_set)
  then show ?thesis
    by (simp add: owners_def)
qed

lemma count_tmp: "count_list (tmp c) a = (if c = Some a then 1 else 0)"
  by (auto simp: tmp_def split: option.splits)

lemma tmp_None: "tmp None = []"
  by (simp add: tmp_def)

lemma holds_Some: "holds a (Some h) = (cb h = Some a)"
  by (simp add: holds_def)

lemma holds_None: "holds a None = False"
  by (simp add: holds_def)

lemma strong_total_le: "strong_total T s a \<le> length (sps s) + length T"
  using owners_le_length[of a "sps s"] count_le_length[of T a]
  by (simp add: strong_total_def)

lemma weak_total_le: "weak_total W s a \<le> length (wps s) + length W"
  using owners_le_length[of a "wps s"] count_le_length[of W a]
  by (simp add: weak_total_def)

lemma count_disposal_events:
  "count_list (disposal_events a b) (Unlink a') = (if a' = a then 1 else 0)"
  "count_list (disposal_events a b) (Delete_this a') = 0"
  by (simp_all add: disposal_events_def split: block_kind.splits)

subsection \<open>The invariant, address by address\<close>

lemma accounted_withD: "accounted_with T W s \<Longrightarrow> accounted_at T W s a"
  by (simp add: accounted_with_def)

lemma accounted_at_Live:
  "cell_of s a = Some (Live b) \<Longrightarrow>
   accounted_at T W s a =
     (unat (strong_ref b) = strong_total T s a \<and> unat (weak_ref b) = weak_total W s a
      \<and> \<not> (strong_ref b = 0 \<and> weak_ref b = 0)
      \<and> deletes s a = 0 \<and> unlinks s a = (if strong_ref b = 0 then 1 else 0))"
  by (simp add: accounted_at_def)

lemma accounted_at_Freed:
  "cell_of s a = Some Freed \<Longrightarrow>
   accounted_at T W s a =
     (strong_total T s a = 0 \<and> weak_total W s a = 0 \<and> deletes s a \<le> 1
      \<and> unlinks s a = deletes s a)"
  by (simp add: accounted_at_def)

lemma accounted_at_None:
  "cell_of s a = None \<Longrightarrow>
   accounted_at T W s a =
     (strong_total T s a = 0 \<and> weak_total W s a = 0 \<and> deletes s a = 0 \<and> unlinks s a = 0)"
  by (simp add: accounted_at_def)

lemma cell_of_Live: "cell_of s a = Some (Live b) \<longleftrightarrow> block_at s a = Inr b"
  by (simp add: cell_of_def block_at_def split: cell.splits)

lemma accounted_at_referenced:
  assumes "accounted_at T W s a" and "0 < strong_total T s a \<or> 0 < weak_total W s a"
  shows "\<exists>b. block_at s a = Inr b"
proof (cases "cell_of s a")
  case None
  then show ?thesis using assms by (simp add: accounted_at_None)
next
  case (Some c)
  show ?thesis
  proof (cases c)
    case (Live b)
    then show ?thesis using Some by (simp add: cell_of_Live)
  next
    case Freed
    then show ?thesis using Some assms by (simp add: accounted_at_Freed)
  qed
qed

lemma accounted_at_block:
  assumes "accounted_at T W s a" and "block_at s a = Inr b"
  shows "unat (strong_ref b) = strong_total T s a" "unat (weak_ref b) = weak_total W s a"
    "\<not> (strong_ref b = 0 \<and> weak_ref b = 0)" "deletes s a = 0"
    "unlinks s a = (if strong_ref b = 0 then 1 else 0)"
  using assms by (simp_all add: cell_of_Live[symmetric] accounted_at_Live)

lemma accounted_at_cong:
  assumes "cell_of s' a = cell_of s a" "strong_total T' s' a = strong_total T s a"
    "weak_total W' s' a = weak_total W s a" "deletes s' a = deletes s a"
    "unlinks s' a = unlinks s a"
  shows "accounted_at T' W' s' a = accounted_at T W s a"
  by (simp only: accounted_at_def assms)

lemma accounted_with_cong:
  assumes "cells s' = cells s" "trace s' = trace s"
    "\<And>a. strong_total T' s' a = strong_total T s a"
    "\<And>a. weak_total W' s' a = weak_total W s a"
  shows "accounted_with T' W' s' = accounted_with T W s"
proof -
  have "accounted_at T' W' s' a = accounted_at T W s a" for a
    by (rule accounted_at_cong) (simp_all add: assms cell_of_def deletes_def unlinks_def)
  then show ?thesis
    by (simp add: accounted_with_def)
qed

lemma accounted_init: "accounted init"
  by (simp add: accounted_def accounted_with_def accounted_at_def cell_of_def init_def
      strong_total_def weak_total_def owners_def deletes_def unlinks_def)

subsection \<open>Each primitive keeps the invariant\<close>

text \<open>
  An increment turns a reference held by a handle into one more reference, held by a
  temporary; a decrement gives up the reference of a temporary; a write to a handle table
  exchanges references between the table and the temporaries.
\<close>

lemma accounted_inc_strong:
  assumes acc: "accounted_with T W s" and b: "block_at s a = Inr b"
    and nz: "strong_ref b \<noteq> 0" and nm: "strong_ref b \<noteq> - 1"
  shows "accounted_with (a # T) W (put_block a (b\<lparr>strong_ref := strong_ref b + 1\<rparr>) s)"
  unfolding accounted_with_def
proof
  fix a'
  let ?s' = "put_block a (b\<lparr>strong_ref := strong_ref b + 1\<rparr>) s"
  from block_atD[OF b] have lt: "a < length (cells s)" by simp
  note at = accounted_withD[OF acc]
  show "accounted_at (a # T) W ?s' a'"
  proof (cases "a' = a")
    case True
    have c: "cell_of ?s' a = Some (Live (b\<lparr>strong_ref := strong_ref b + 1\<rparr>))"
      using lt by (simp add: cell_of_def put_block_def)
    show ?thesis
      using accounted_at_block[OF at[of a] b] nz inc_not_zero[OF nm] unat_inc[OF nm]
      by (simp add: True accounted_at_Live[OF c])
        (simp add: strong_total_def weak_total_def deletes_def unlinks_def put_block_def)
  next
    case False
    have "accounted_at (a # T) W ?s' a' = accounted_at T W s a'"
      using False
      by (intro accounted_at_cong)
        (simp_all add: cell_of_def put_block_def strong_total_def weak_total_def deletes_def
          unlinks_def)
    then show ?thesis using at[of a'] by simp
  qed
qed

lemma accounted_inc_weak:
  assumes acc: "accounted_with T W s" and b: "block_at s a = Inr b"
    and nm: "weak_ref b \<noteq> - 1"
  shows "accounted_with T (a # W) (put_block a (b\<lparr>weak_ref := weak_ref b + 1\<rparr>) s)"
  unfolding accounted_with_def
proof
  fix a'
  let ?s' = "put_block a (b\<lparr>weak_ref := weak_ref b + 1\<rparr>) s"
  from block_atD[OF b] have lt: "a < length (cells s)" by simp
  note at = accounted_withD[OF acc]
  show "accounted_at T (a # W) ?s' a'"
  proof (cases "a' = a")
    case True
    have c: "cell_of ?s' a = Some (Live (b\<lparr>weak_ref := weak_ref b + 1\<rparr>))"
      using lt by (simp add: cell_of_def put_block_def)
    show ?thesis
      using accounted_at_block[OF at[of a] b] inc_not_zero[OF nm] unat_inc[OF nm]
      by (simp add: True accounted_at_Live[OF c])
        (simp add: strong_total_def weak_total_def deletes_def unlinks_def put_block_def)
  next
    case False
    have "accounted_at T (a # W) ?s' a' = accounted_at T W s a'"
      using False
      by (intro accounted_at_cong)
        (simp_all add: cell_of_def put_block_def strong_total_def weak_total_def deletes_def
          unlinks_def)
    then show ?thesis using at[of a'] by simp
  qed
qed

lemma released_views:
  "a' \<noteq> a \<Longrightarrow> cell_of (released a b s) a' = cell_of s a'"
  "strong_total T (released a b s) a' = strong_total T s a'"
  "weak_total W (released a b s) a' = weak_total W s a'"
  "a' \<noteq> a \<Longrightarrow> deletes (released a b s) a' = deletes s a'"
  "a' \<noteq> a \<Longrightarrow> unlinks (released a b s) a' = unlinks s a'"
  by (simp_all add: released_def cell_of_def strong_total_def weak_total_def deletes_def
      unlinks_def count_disposal_events)

lemma accounted_released:
  assumes acc: "accounted_with (a # T) W s" and b: "block_at s a = Inr b"
  shows "accounted_with T W (released a b s)"
  unfolding accounted_with_def
proof
  fix a'
  from block_atD[OF b] have lt: "a < length (cells s)" by simp
  note at = accounted_withD[OF acc]
  note f = accounted_at_block[OF at[of a] b]
  have st: "unat (strong_ref b) = strong_total T s a + 1"
    using f(1) by (simp add: strong_total_def)
  then have nz: "strong_ref b \<noteq> 0"
    using unat_pos[of "strong_ref b"] by simp
  show "accounted_at T W (released a b s) a'"
  proof (cases "a' = a")
    case True
    show ?thesis
    proof (cases "strong_ref b = 1")
      case one: True
      then have z: "strong_total T s a = 0"
        using st by simp
      show ?thesis
      proof (cases "weak_ref b = 0")
        case w0: True
        have c: "cell_of (released a b s) a = Some Freed"
          using lt one w0 by (simp add: cell_of_def released_def)
        have w: "weak_total W s a = 0"
          using f(2) w0 by simp
        show ?thesis
          using z w f(4,5) nz
          by (simp add: True accounted_at_Freed[OF c] released_views)
            (simp add: released_def one w0 deletes_def unlinks_def count_disposal_events)
      next
        case w1: False
        have c: "cell_of (released a b s) a = Some (Live (b\<lparr>strong_ref := 0\<rparr>))"
          using lt one w1 by (simp add: cell_of_def released_def)
        show ?thesis
          using z f(2,4,5) nz w1
          by (simp add: True accounted_at_Live[OF c] released_views)
            (simp add: released_def one w1 deletes_def unlinks_def count_disposal_events)
      qed
    next
      case more: False
      have c: "cell_of (released a b s) a =
          Some (Live (b\<lparr>strong_ref := strong_ref b - 1\<rparr>))"
        using lt more by (simp add: cell_of_def released_def)
      have d: "strong_ref b - 1 \<noteq> 0"
        using more by (simp add: word_dec_eq_0)
      show ?thesis
        using st f(2,3,4,5) nz d unat_dec[OF nz]
        by (simp add: True accounted_at_Live[OF c] released_views)
          (simp add: released_def more deletes_def unlinks_def)
    qed
  next
    case False
    have "accounted_at T W (released a b s) a' = accounted_at (a # T) W s a'"
      using False
      by (intro accounted_at_cong) (simp_all add: released_views, simp add: strong_total_def)
    then show ?thesis using at[of a'] by simp
  qed
qed

lemma weak_released_views:
  "a' \<noteq> a \<Longrightarrow> cell_of (weak_released a b s) a' = cell_of s a'"
  "strong_total T (weak_released a b s) a' = strong_total T s a'"
  "weak_total W (weak_released a b s) a' = weak_total W s a'"
  "a' \<noteq> a \<Longrightarrow> deletes (weak_released a b s) a' = deletes s a'"
  "unlinks (weak_released a b s) a' = unlinks s a'"
  by (simp_all add: weak_released_def cell_of_def strong_total_def weak_total_def deletes_def
      unlinks_def)

lemma accounted_weak_released:
  assumes acc: "accounted_with T (a # W) s" and b: "block_at s a = Inr b"
  shows "accounted_with T W (weak_released a b s)"
  unfolding accounted_with_def
proof
  fix a'
  from block_atD[OF b] have lt: "a < length (cells s)" by simp
  note at = accounted_withD[OF acc]
  note f = accounted_at_block[OF at[of a] b]
  have wt: "unat (weak_ref b) = weak_total W s a + 1"
    using f(2) by (simp add: weak_total_def)
  then have nz: "weak_ref b \<noteq> 0"
    using unat_pos[of "weak_ref b"] by simp
  show "accounted_at T W (weak_released a b s) a'"
  proof (cases "a' = a")
    case True
    show ?thesis
    proof (cases "strong_ref b = 0 \<and> weak_ref b = 1")
      case last: True
      have c: "cell_of (weak_released a b s) a = Some Freed"
        using lt last by (simp add: cell_of_def weak_released_def)
      have z: "weak_total W s a = 0" "strong_total T s a = 0"
        using wt f(1) last by simp_all
      show ?thesis
        using z f(4,5) last
        by (simp add: True accounted_at_Freed[OF c] weak_released_views)
          (simp add: weak_released_def deletes_def)
    next
      case more: False
      have c: "cell_of (weak_released a b s) a =
          Some (Live (b\<lparr>weak_ref := weak_ref b - 1\<rparr>))"
        using lt more by (simp add: cell_of_def weak_released_def)
      have d: "strong_ref b = 0 \<Longrightarrow> weak_ref b - 1 \<noteq> 0"
        using more by (simp add: word_dec_eq_0)
      show ?thesis
        using wt f(1,4,5) d unat_dec[OF nz] more
        by (simp add: True accounted_at_Live[OF c] weak_released_views)
          (auto simp add: weak_released_def deletes_def)
    qed
  next
    case False
    have "accounted_at T W (weak_released a b s) a' = accounted_at T (a # W) s a'"
      using False
      by (intro accounted_at_cong) (simp_all add: weak_released_views, simp add: weak_total_def)
    then show ?thesis using at[of a'] by simp
  qed
qed

lemma accounted_begin_sp:
  "accounted_with (tmp (cb h) @ T) W s \<Longrightarrow> accounted_with T W (s\<lparr>sps := sps s @ [Some h]\<rparr>)"
  using accounted_with_cong[of "s\<lparr>sps := sps s @ [Some h]\<rparr>" s T "tmp (cb h) @ T" W W]
  by (simp add: strong_total_def weak_total_def owners_append holds_Some count_tmp)

lemma accounted_begin_wp:
  "accounted_with T (tmp (cb h) @ W) s \<Longrightarrow> accounted_with T W (s\<lparr>wps := wps s @ [Some h]\<rparr>)"
  using accounted_with_cong[of "s\<lparr>wps := wps s @ [Some h]\<rparr>" s T T W "tmp (cb h) @ W"]
  by (simp add: strong_total_def weak_total_def owners_append holds_Some count_tmp)

lemma accounted_set_sp:
  assumes "sp_at s i = Inr t" "accounted_with (tmp (cb h) @ T) W s"
  shows "accounted_with (tmp (cb t) @ T) W (set_sp i h s)"
proof -
  from sp_atD[OF assms(1)] have i: "i < length (sps s)" and t: "sps s ! i = Some t"
    by simp_all
  have "strong_total (tmp (cb t) @ T) (set_sp i h s) a = strong_total (tmp (cb h) @ T) s a" for a
    using owners_update[OF i, of a "Some h"]
    by (simp add: strong_total_def set_sp_def t holds_Some count_tmp split: if_splits)
  then have "accounted_with (tmp (cb t) @ T) W (set_sp i h s) =
      accounted_with (tmp (cb h) @ T) W s"
    by (intro accounted_with_cong) (simp_all add: set_sp_def weak_total_def)
  with assms(2) show ?thesis by simp
qed

lemma accounted_set_wp:
  assumes "wp_at s i = Inr t" "accounted_with T (tmp (cb h) @ W) s"
  shows "accounted_with T (tmp (cb t) @ W) (set_wp i h s)"
proof -
  from wp_atD[OF assms(1)] have i: "i < length (wps s)" and t: "wps s ! i = Some t"
    by simp_all
  have "weak_total (tmp (cb t) @ W) (set_wp i h s) a = weak_total (tmp (cb h) @ W) s a" for a
    using owners_update[OF i, of a "Some h"]
    by (simp add: weak_total_def set_wp_def t holds_Some count_tmp split: if_splits)
  then have "accounted_with T (tmp (cb t) @ W) (set_wp i h s) =
      accounted_with T (tmp (cb h) @ W) s"
    by (intro accounted_with_cong) (simp_all add: set_wp_def strong_total_def)
  with assms(2) show ?thesis by simp
qed

lemma accounted_end_sp:
  assumes "sp_at s i = Inr t" "accounted_with T W s"
  shows "accounted_with (tmp (cb t) @ T) W (end_sp i s)"
proof -
  from sp_atD[OF assms(1)] have i: "i < length (sps s)" and t: "sps s ! i = Some t"
    by simp_all
  have "strong_total (tmp (cb t) @ T) (end_sp i s) a = strong_total T s a" for a
    using owners_update[OF i, of a None]
    by (simp add: strong_total_def end_sp_def t holds_Some holds_None count_tmp split: if_splits)
  then have "accounted_with (tmp (cb t) @ T) W (end_sp i s) = accounted_with T W s"
    by (intro accounted_with_cong) (simp_all add: end_sp_def weak_total_def)
  with assms(2) show ?thesis by simp
qed

lemma accounted_end_wp:
  assumes "wp_at s i = Inr t" "accounted_with T W s"
  shows "accounted_with T (tmp (cb t) @ W) (end_wp i s)"
proof -
  from wp_atD[OF assms(1)] have i: "i < length (wps s)" and t: "wps s ! i = Some t"
    by simp_all
  have "weak_total (tmp (cb t) @ W) (end_wp i s) a = weak_total W s a" for a
    using owners_update[OF i, of a None]
    by (simp add: weak_total_def end_wp_def t holds_Some holds_None count_tmp split: if_splits)
  then have "accounted_with T (tmp (cb t) @ W) (end_wp i s) = accounted_with T W s"
    by (intro accounted_with_cong) (simp_all add: end_wp_def strong_total_def)
  with assms(2) show ?thesis by simp
qed

lemma accounted_new:
  assumes acc: "accounted_with T W s" and b: "strong_ref b = 1" "weak_ref b = 0"
  shows "accounted_with (length (cells s) # T) W (s\<lparr>cells := cells s @ [Live b]\<rparr>)"
  unfolding accounted_with_def
proof
  fix a
  let ?s' = "s\<lparr>cells := cells s @ [Live b]\<rparr>"
  note at = accounted_withD[OF acc]
  show "accounted_at (length (cells s) # T) W ?s' a"
  proof (cases "a = length (cells s)")
    case True
    have c: "cell_of ?s' a = Some (Live b)" and n: "cell_of s a = None"
      by (simp_all add: True cell_of_def)
    show ?thesis
      using at[of a] b
      by (simp add: accounted_at_Live[OF c] accounted_at_None[OF n])
        (simp add: True strong_total_def weak_total_def deletes_def unlinks_def)
  next
    case False
    have "accounted_at (length (cells s) # T) W ?s' a = accounted_at T W s a"
      using False
      by (intro accounted_at_cong)
        (simp_all add: cell_of_def nth_append strong_total_def weak_total_def deletes_def
          unlinks_def)
    then show ?thesis using at[of a] by simp
  qed
qed

lemma accounted_failed_new:
  assumes acc: "accounted_with T W s"
  shows "accounted_with T W (s\<lparr>cells := cells s @ [Freed]\<rparr>)"
  unfolding accounted_with_def
proof
  fix a
  let ?s' = "s\<lparr>cells := cells s @ [Freed]\<rparr>"
  note at = accounted_withD[OF acc]
  show "accounted_at T W ?s' a"
  proof (cases "a = length (cells s)")
    case True
    have c: "cell_of ?s' a = Some Freed" and n: "cell_of s a = None"
      by (simp_all add: True cell_of_def)
    show ?thesis
      using at[of a]
      by (simp add: accounted_at_Freed[OF c] accounted_at_None[OF n])
        (simp add: True strong_total_def weak_total_def deletes_def unlinks_def)
  next
    case False
    have "accounted_at T W ?s' a = accounted_at T W s a"
      using False
      by (intro accounted_at_cong)
        (simp_all add: cell_of_def nth_append strong_total_def weak_total_def deletes_def
          unlinks_def)
    then show ?thesis using at[of a] by simp
  qed
qed

lemma accounted_deleter_call:
  assumes acc: "accounted_with T W s"
  shows "accounted_with T W (log (Deleter_call d p) s)"
proof -
  have "accounted_at T W (log (Deleter_call d p) s) a = accounted_at T W s a" for a
    by (rule accounted_at_cong)
      (simp_all add: log_def cell_of_def strong_total_def weak_total_def deletes_def unlinks_def)
  then show ?thesis using acc by (simp add: accounted_with_def)
qed

subsection \<open>Constructors and destructors keep the invariant\<close>

lemma stored_owner:
  assumes acc: "accounted_with T W s" and h: "sp_at s i = Inr h" and c: "cb h = Some a"
  shows "\<exists>b. block_at s a = Inr b \<and> strong_ref b \<noteq> 0
    \<and> unat (strong_ref b) = strong_total T s a \<and> unat (weak_ref b) = weak_total W s a"
proof -
  from sp_atD[OF h] c have "0 < owners a (sps s)"
    by (intro owners_pos[of i]) (simp_all add: holds_Some)
  then have pos: "0 < strong_total T s a"
    by (simp add: strong_total_def)
  with accounted_at_referenced[OF accounted_withD[OF acc]]
  obtain b where b: "block_at s a = Inr b" by blast
  from accounted_at_block(1,2)[OF accounted_withD[OF acc] b] pos
  show ?thesis
    using b unat_pos[of "strong_ref b"] by auto
qed

lemma stored_observer:
  assumes acc: "accounted_with T W s" and h: "wp_at s i = Inr h" and c: "cb h = Some a"
  shows "\<exists>b. block_at s a = Inr b \<and> weak_ref b \<noteq> 0
    \<and> unat (strong_ref b) = strong_total T s a \<and> unat (weak_ref b) = weak_total W s a"
proof -
  from wp_atD[OF h] c have "0 < owners a (wps s)"
    by (intro owners_pos[of i]) (simp_all add: holds_Some)
  then have pos: "0 < weak_total W s a"
    by (simp add: weak_total_def)
  with accounted_at_referenced[OF accounted_withD[OF acc]]
  obtain b where b: "block_at s a = Inr b" by blast
  from accounted_at_block(1,2)[OF accounted_withD[OF acc] b] pos
  show ?thesis
    using b unat_pos[of "weak_ref b"] by auto
qed

lemma temporary_owner:
  assumes acc: "accounted_with (a # T) W s"
  shows "\<exists>b. block_at s a = Inr b"
  using accounted_at_referenced[OF accounted_withD[OF acc], of a]
  by (simp add: strong_total_def)

lemma temporary_observer:
  assumes acc: "accounted_with T (a # W) s"
  shows "\<exists>b. block_at s a = Inr b"
  using accounted_at_referenced[OF accounted_withD[OF acc], of a]
  by (simp add: weak_total_def)

lemma acquire_strong:
  assumes acc: "accounted_with T W s" and h: "sp_at s i = Inr src" and c: "cb src = Some a"
    and bound: "length (sps s) + length T < 2 ^ 64 - 1"
  shows "\<exists>s1. inc_strong_ref a s = Inr s1 \<and> accounted_with (a # T) W s1
    \<and> sps s1 = sps s \<and> wps s1 = wps s"
proof -
  from stored_owner[OF acc h c] obtain b where b: "block_at s a = Inr b"
    and nz: "strong_ref b \<noteq> 0" and u: "unat (strong_ref b) = strong_total T s a"
    by blast
  have "unat (strong_ref b) < 2 ^ 64 - 1"
    using strong_total_le[of T s a] bound u by simp
  then have nm: "strong_ref b \<noteq> - 1"
    by (rule not_max)
  show ?thesis
    using accounted_inc_strong[OF acc b nz nm]
    by (simp add: inc_strong_ref_def b put_block_tables)
qed

lemma acquire_weak:
  assumes acc: "accounted_with T W s" and b: "block_at s a = Inr b"
    and bound: "length (wps s) + length W < 2 ^ 64 - 1"
  shows "\<exists>s1. inc_weak_ref a s = Inr s1 \<and> accounted_with T (a # W) s1
    \<and> sps s1 = sps s \<and> wps s1 = wps s"
proof -
  have "unat (weak_ref b) < 2 ^ 64 - 1"
    using weak_total_le[of W s a] bound accounted_at_block(2)[OF accounted_withD[OF acc] b]
    by simp
  then have nm: "weak_ref b \<noteq> - 1"
    by (rule not_max)
  show ?thesis
    using accounted_inc_weak[OF acc b nm]
    by (simp add: inc_weak_ref_def b put_block_tables)
qed

lemma shared_ptr_copy_accounted:
  assumes acc: "accounted_with T W s" and h: "sp_at s i = Inr src"
    and bound: "length (sps s) + length T < 2 ^ 64 - 1"
  shows "\<exists>s1. shared_ptr_copy src s = Inr (src, s1) \<and> accounted_with (tmp (cb src) @ T) W s1
    \<and> sps s1 = sps s \<and> wps s1 = wps s"
proof (cases "cb src")
  case None
  then show ?thesis
    using acc by (simp add: shared_ptr_copy_def tmp_def handle_rebuild)
next
  case (Some a)
  from acquire_strong[OF acc h Some bound] show ?thesis
    by (auto simp: shared_ptr_copy_def Some tmp_def handle_rebuild)
qed

lemma shared_ptr_alias_accounted:
  assumes acc: "accounted_with T W s" and h: "sp_at s i = Inr src"
    and bound: "length (sps s) + length T < 2 ^ 64 - 1"
  shows "\<exists>s1. shared_ptr_alias src p s = Inr (\<lparr>cb = cb src, ptr = p\<rparr>, s1)
    \<and> accounted_with (tmp (cb src) @ T) W s1 \<and> sps s1 = sps s \<and> wps s1 = wps s"
proof (cases "cb src")
  case None
  then show ?thesis
    using acc by (simp add: shared_ptr_alias_def tmp_def)
next
  case (Some a)
  from acquire_strong[OF acc h Some bound] show ?thesis
    by (auto simp: shared_ptr_alias_def Some tmp_def)
qed

lemma weak_ptr_copy_accounted:
  assumes acc: "accounted_with T W s"
    and h: "sp_at s i = Inr src \<or> wp_at s i = Inr src"
    and bound: "length (wps s) + length W < 2 ^ 64 - 1"
  shows "\<exists>s1. weak_ptr_copy src s = Inr (src, s1) \<and> accounted_with T (tmp (cb src) @ W) s1
    \<and> sps s1 = sps s \<and> wps s1 = wps s"
proof (cases "cb src")
  case None
  then show ?thesis
    using acc by (simp add: weak_ptr_copy_def tmp_def handle_rebuild)
next
  case (Some a)
  from h stored_owner[OF acc _ Some] stored_observer[OF acc _ Some]
  obtain b where "block_at s a = Inr b" by blast
  from acquire_weak[OF acc this bound] show ?thesis
    by (auto simp: weak_ptr_copy_def Some tmp_def handle_rebuild)
qed

lemma lock_accounted:
  assumes acc: "accounted_with T W s" and h: "wp_at s i = Inr w"
    and bound: "length (sps s) + length T < 2 ^ 64 - 1"
  shows "\<exists>r s1. lock w s = Inr (r, s1) \<and> accounted_with (tmp (cb r) @ T) W s1
    \<and> sps s1 = sps s \<and> wps s1 = wps s"
proof (cases "cb w")
  case None
  then show ?thesis
    using acc by (simp add: lock_def tmp_def shared_ptr_default_def)
next
  case (Some a)
  from stored_observer[OF acc h Some] obtain b where b: "block_at s a = Inr b"
    and u: "unat (strong_ref b) = strong_total T s a"
    by blast
  show ?thesis
  proof (cases "strong_ref b = 0")
    case True
    then show ?thesis
      using acc
      by (simp add: lock_def Some get_strong_ref_count_def b tmp_def shared_ptr_default_def)
  next
    case False
    have "unat (strong_ref b) < 2 ^ 64 - 1"
      using strong_total_le[of T s a] bound u by simp
    then have nm: "strong_ref b \<noteq> - 1"
      by (rule not_max)
    show ?thesis
      using accounted_inc_strong[OF acc b False nm] False
      by (simp add: lock_def Some get_strong_ref_count_def b inc_strong_ref_def tmp_def
          put_block_tables)
  qed
qed

lemma shared_ptr_dtor_accounted:
  assumes i: "inert U" and acc: "accounted_with (tmp (cb h) @ T) W s"
  shows "\<exists>s1. shared_ptr_dtor U h s = Inr s1 \<and> accounted_with T W s1
    \<and> sps s1 = sps s \<and> wps s1 = wps s"
proof (cases "cb h")
  case None
  then show ?thesis
    using acc by (simp add: shared_ptr_dtor_def tmp_def)
next
  case (Some a)
  with acc have acc': "accounted_with (a # T) W s"
    by (simp add: tmp_def)
  from temporary_owner[OF acc'] obtain b where b: "block_at s a = Inr b" ..
  show ?thesis
    using accounted_released[OF acc' b]
    by (simp add: shared_ptr_dtor_def Some dec_strong_ref_inert[OF i b] released_frame)
qed

lemma weak_ptr_dtor_accounted:
  assumes acc: "accounted_with T (tmp (cb h) @ W) s"
  shows "\<exists>s1. weak_ptr_dtor h s = Inr s1 \<and> accounted_with T W s1
    \<and> sps s1 = sps s \<and> wps s1 = wps s"
proof (cases "cb h")
  case None
  then show ?thesis
    using acc by (simp add: weak_ptr_dtor_def tmp_def)
next
  case (Some a)
  with acc have acc': "accounted_with T (a # W) s"
    by (simp add: tmp_def)
  from temporary_observer[OF acc'] obtain b where b: "block_at s a = Inr b" ..
  show ?thesis
    using accounted_weak_released[OF acc' b]
    by (simp add: weak_ptr_dtor_def Some dec_weak_ref_weak_released[OF b] weak_released_tables)
qed

lemma shared_ptr_raw_accounted:
  assumes "accounted s"
  shows "shared_ptr_raw U True p d s =
      Inr (\<lparr>cb = Some (length (cells s)), ptr = p\<rparr>, s\<lparr>cells := cells s @ [Live (ptr_block p d)]\<rparr>)"
    and "accounted_with (tmp (Some (length (cells s)))) []
      (s\<lparr>cells := cells s @ [Live (ptr_block p d)]\<rparr>)"
    and "inert U \<Longrightarrow> shared_ptr_raw U False p d s = Inl (Thrown (log (Deleter_call d p) s))"
    and "accounted (log (Deleter_call d p) s)"
proof -
  show "shared_ptr_raw U True p d s =
      Inr (\<lparr>cb = Some (length (cells s)), ptr = p\<rparr>, s\<lparr>cells := cells s @ [Live (ptr_block p d)]\<rparr>)"
    by (simp add: shared_ptr_raw_def new_def)
  show "accounted_with (tmp (Some (length (cells s)))) []
      (s\<lparr>cells := cells s @ [Live (ptr_block p d)]\<rparr>)"
    using accounted_new[of "[]" "[]" s "ptr_block p d"] assms
    by (simp add: accounted_def tmp_def ptr_block_def)
  show "shared_ptr_raw U False p d s = Inl (Thrown (log (Deleter_call d p) s))" if "inert U"
    by (simp add: shared_ptr_raw_def call_deleter_def inertD[OF that])
  show "accounted (log (Deleter_call d p) s)"
    using accounted_deleter_call[of "[]" "[]" s] assms by (simp add: accounted_def)
qed

subsection \<open>Every operation keeps the invariant\<close>

lemma ends_simps:
  "ends (Inr s1) s' = (s' = s1)" "ends (Inl (Thrown s1)) s' = (s' = s1)"
  "ends (Inl Undefined_behaviour) s' = False"
  by (auto simp: ends_def)

lemma ends_sp_at:
  assumes "ends (and_then (sp_at s i) f) s'"
  obtains t where "sp_at s i = Inr t" "ends (f t) s'"
  using assms
  by (cases "i < length (sps s)"; cases "sps s ! i") (auto simp: sp_at_def ends_simps)

lemma ends_wp_at:
  assumes "ends (and_then (wp_at s i) f) s'"
  obtains t where "wp_at s i = Inr t" "ends (f t) s'"
  using assms
  by (cases "i < length (wps s)"; cases "wps s ! i") (auto simp: wp_at_def ends_simps)

lemma keptI:
  "accounted s' \<Longrightarrow> length (sps s') = length (sps s) \<Longrightarrow> length (wps s') = length (wps s) \<Longrightarrow>
   kept s s'"
  by (simp add: kept_def)

lemma begin_sp_accounted:
  assumes "r = Inr (h, s1)" "accounted_with (tmp (cb h)) [] s1" "sps s1 = sps s" "wps s1 = wps s"
    "ends (begin_sp r) s'"
  shows "kept s s'"
  using assms accounted_begin_sp[of h "[]" "[]" s1]
  by (simp add: begin_sp_def ends_simps kept_def accounted_def)

lemma begin_wp_accounted:
  assumes "r = Inr (h, s1)" "accounted_with [] (tmp (cb h)) s1" "sps s1 = sps s" "wps s1 = wps s"
    "ends (begin_wp r) s'"
  shows "kept s s'"
  using assms accounted_begin_wp[of "[]" h "[]" s1]
  by (simp add: begin_wp_def ends_simps kept_def accounted_def)

lemma swap_into_accounted:
  assumes i: "inert U" and acc: "accounted_with (tmp (cb h)) [] s" and t: "sp_at s this = Inr t"
  shows "\<exists>s1. swap_into U this h s = Inr s1 \<and> accounted s1
    \<and> length (sps s1) = length (sps s) \<and> wps s1 = wps s"
proof -
  have "accounted_with (tmp (cb t) @ []) [] (set_sp this h s)"
    using accounted_set_sp[OF t, of h "[]" "[]"] acc by simp
  then have "accounted_with (tmp (cb \<lparr>cb = cb t, ptr = ptr t\<rparr>) @ []) [] (set_sp this h s)"
    by simp
  from shared_ptr_dtor_accounted[OF i this]
  show ?thesis
    by (auto simp: swap_into_def t swap_handles_def accounted_def set_sp_def handle_eta)
qed

lemma weak_swap_into_accounted:
  assumes acc: "accounted_with [] (tmp (cb h)) s" and t: "wp_at s this = Inr t"
  shows "\<exists>s1. weak_swap_into this h s = Inr s1 \<and> accounted s1
    \<and> sps s1 = sps s \<and> length (wps s1) = length (wps s)"
proof -
  have "accounted_with [] (tmp (cb t) @ []) (set_wp this h s)"
    using accounted_set_wp[OF t, of "[]" h "[]"] acc by simp
  then have "accounted_with [] (tmp (cb \<lparr>cb = cb t, ptr = ptr t\<rparr>) @ []) (set_wp this h s)"
    by simp
  from weak_ptr_dtor_accounted[OF this]
  show ?thesis
    by (auto simp: weak_swap_into_def t swap_handles_def accounted_def set_wp_def handle_eta)
qed

lemma step_sp_default:
  assumes "accounted s" "ends (step U Sp_default s) s'"
  shows "kept s s'"
  using assms(1) begin_sp_accounted[of "Inr (shared_ptr_default, s)" shared_ptr_default s s s']
    assms(2)
  by (simp add: accounted_def shared_ptr_default_def tmp_None)

lemma step_wp_default:
  assumes "accounted s" "ends (step U Wp_default s) s'"
  shows "kept s s'"
  using assms(1) begin_wp_accounted[of "Inr (weak_ptr_default, s)" weak_ptr_default s s s']
    assms(2)
  by (simp add: accounted_def weak_ptr_default_def tmp_None)

lemma step_sp_raw:
  assumes i: "inert U" and acc: "accounted s" and e: "ends (step U (Sp_raw ok p d) s) s'"
  shows "kept s s'"
proof (cases ok)
  case True
  show ?thesis
    using begin_sp_accounted[OF shared_ptr_raw_accounted(1)[OF acc], of _ _ s U s']
      shared_ptr_raw_accounted(2)[OF acc] e True
    by simp
next
  case False
  then have "s' = log (Deleter_call d p) s"
    using e by (simp add: shared_ptr_raw_accounted(3)[OF acc i] begin_sp_def ends_simps)
  then show ?thesis
    using shared_ptr_raw_accounted(4)[OF acc] by (simp add: kept_def log_def)
qed

lemma step_make_shared:
  assumes acc: "accounted s" and e: "ends (step U (Make_shared c) s) s'"
  shows "kept s s'"
proof (cases c)
  case Bad_alloc
  then show ?thesis
    using e acc by (simp add: make_shared_def begin_sp_def ends_simps kept_def)
next
  case Ctor_throws
  then have "s' = s\<lparr>cells := cells s @ [Freed]\<rparr>"
    using e by (simp add: make_shared_def begin_sp_def ends_simps)
  then show ?thesis
    using accounted_failed_new[of "[]" "[]" s] acc by (simp add: kept_def accounted_def)
next
  case Constructed
  have r: "make_shared Constructed s =
      Inr (shared_ptr_of_block (length (cells s)), s\<lparr>cells := cells s @ [Live obj_block]\<rparr>)"
    by (simp add: make_shared_def new_def)
  have a: "accounted_with (tmp (cb (shared_ptr_of_block (length (cells s))))) []
      (s\<lparr>cells := cells s @ [Live obj_block]\<rparr>)"
    using accounted_new[of "[]" "[]" s obj_block] acc
    by (simp add: accounted_def tmp_def obj_block_def shared_ptr_of_block_def)
  show ?thesis
    using begin_sp_accounted[OF r a, of s s'] e Constructed by simp
qed

lemma step_sp_copy:
  assumes acc: "accounted s" and bs: "length (sps s) < 2 ^ 64 - 1"
    and e: "ends (step U (Sp_copy other) s) s'"
  shows "kept s s'"
proof -
  from e obtain src where src: "sp_at s other = Inr src"
    using sp_at_cases[of s other] by (auto simp: begin_sp_def ends_simps)
  from shared_ptr_copy_accounted[of "[]" "[]" s other src] acc bs src
  obtain s1 where r: "shared_ptr_copy src s = Inr (src, s1)"
    and a: "accounted_with (tmp (cb src)) [] s1" and f: "sps s1 = sps s" "wps s1 = wps s"
    by (auto simp: accounted_def)
  show ?thesis
    using begin_sp_accounted[OF r a f, of s'] e by (simp add: src)
qed

lemma step_sp_alias:
  assumes acc: "accounted s" and bs: "length (sps s) < 2 ^ 64 - 1"
    and e: "ends (step U (Sp_alias other p) s) s'"
  shows "kept s s'"
proof -
  from e obtain src where src: "sp_at s other = Inr src"
    using sp_at_cases[of s other] by (auto simp: begin_sp_def ends_simps)
  from shared_ptr_alias_accounted[of "[]" "[]" s other src p] acc bs src
  obtain s1 where r: "shared_ptr_alias src p s = Inr (\<lparr>cb = cb src, ptr = p\<rparr>, s1)"
    and a: "accounted_with (tmp (cb \<lparr>cb = cb src, ptr = p\<rparr>)) [] s1"
    and f: "sps s1 = sps s" "wps s1 = wps s"
    by (auto simp: accounted_def)
  show ?thesis
    using begin_sp_accounted[OF r a f, of s'] e by (simp add: src)
qed

lemma step_wp_lock:
  assumes acc: "accounted s" and bs: "length (sps s) < 2 ^ 64 - 1"
    and e: "ends (step U (Wp_lock this) s) s'"
  shows "kept s s'"
proof -
  from e obtain w where w: "wp_at s this = Inr w"
    using wp_at_cases[of s this] by (auto simp: begin_sp_def ends_simps)
  from lock_accounted[of "[]" "[]" s this w] acc bs w
  obtain h s1 where r: "lock w s = Inr (h, s1)"
    and a: "accounted_with (tmp (cb h)) [] s1" and f: "sps s1 = sps s" "wps s1 = wps s"
    by (auto simp: accounted_def)
  show ?thesis
    using begin_sp_accounted[OF r a f, of s'] e by (simp add: w)
qed

lemma step_wp_copy:
  assumes acc: "accounted s" and bw: "length (wps s) < 2 ^ 64 - 1"
    and e: "ends (step U (Wp_copy other) s) s'"
  shows "kept s s'"
proof -
  from e obtain src where src: "wp_at s other = Inr src"
    using wp_at_cases[of s other] by (auto simp: begin_wp_def ends_simps)
  from weak_ptr_copy_accounted[of "[]" "[]" s other src] acc bw src
  obtain s1 where r: "weak_ptr_copy src s = Inr (src, s1)"
    and a: "accounted_with [] (tmp (cb src)) s1" and f: "sps s1 = sps s" "wps s1 = wps s"
    by (auto simp: accounted_def)
  show ?thesis
    using begin_wp_accounted[OF r a f, of s'] e by (simp add: src)
qed

lemma step_wp_of_shared:
  assumes acc: "accounted s" and bw: "length (wps s) < 2 ^ 64 - 1"
    and e: "ends (step U (Wp_of_shared other) s) s'"
  shows "kept s s'"
proof -
  from e obtain src where src: "sp_at s other = Inr src"
    using sp_at_cases[of s other] by (auto simp: begin_wp_def ends_simps)
  from weak_ptr_copy_accounted[of "[]" "[]" s other src] acc bw src
  obtain s1 where r: "weak_ptr_copy src s = Inr (src, s1)"
    and a: "accounted_with [] (tmp (cb src)) s1" and f: "sps s1 = sps s" "wps s1 = wps s"
    by (auto simp: accounted_def)
  show ?thesis
    using begin_wp_accounted[OF r a f, of s'] e by (simp add: src)
qed

lemma step_sp_move:
  assumes acc: "accounted s" and e: "ends (step U (Sp_move other) s) s'"
  shows "kept s s'"
proof -
  from e obtain src where src: "sp_at s other = Inr src"
    using sp_at_cases[of s other] by (auto simp: move_construct_def ends_simps)
  let ?s1 = "set_sp other \<lparr>cb = None, ptr = nullptr\<rparr> s"
  have a: "accounted_with (tmp (cb \<lparr>cb = cb src, ptr = ptr src\<rparr>)) [] ?s1"
    using accounted_set_sp[OF src, of "\<lparr>cb = None, ptr = nullptr\<rparr>" "[]" "[]"] acc
    by (simp add: accounted_def tmp_None)
  have "kept ?s1 s'"
    using begin_sp_accounted[OF refl a refl refl, of s'] e
    by (simp add: move_construct_def src shared_ptr_move_def)
  then show ?thesis
    by (simp add: kept_def set_sp_def)
qed

lemma step_wp_move:
  assumes acc: "accounted s" and e: "ends (step U (Wp_move other) s) s'"
  shows "kept s s'"
proof -
  from e obtain src where src: "wp_at s other = Inr src"
    using wp_at_cases[of s other] by (auto simp: weak_move_construct_def ends_simps)
  let ?s1 = "set_wp other \<lparr>cb = None, ptr = nullptr\<rparr> s"
  have a: "accounted_with [] (tmp (cb \<lparr>cb = cb src, ptr = ptr src\<rparr>)) ?s1"
    using accounted_set_wp[OF src, of "[]" "\<lparr>cb = None, ptr = nullptr\<rparr>" "[]"] acc
    by (simp add: accounted_def tmp_None)
  have "kept ?s1 s'"
    using begin_wp_accounted[OF refl a refl refl, of s'] e
    by (simp add: weak_move_construct_def src shared_ptr_move_def)
  then show ?thesis
    by (simp add: kept_def set_wp_def)
qed

lemma step_sp_copy_assign:
  assumes i: "inert U" and acc: "accounted s" and bs: "length (sps s) < 2 ^ 64 - 1"
    and e: "ends (step U (Sp_copy_assign this other) s) s'"
  shows "kept s s'"
proof -
  from e obtain t where t: "sp_at s this = Inr t"
    using sp_at_cases[of s this] by (auto simp: copy_assign_def ends_simps)
  from e t obtain src where src: "sp_at s other = Inr src"
    using sp_at_cases[of s other] by (auto simp: copy_assign_def ends_simps)
  show ?thesis
  proof (cases "this = other")
    case True
    then show ?thesis
      using e t acc by (simp add: copy_assign_def ends_simps kept_def)
  next
    case False
    from shared_ptr_copy_accounted[of "[]" "[]" s other src] acc bs src
    obtain s1 where r: "shared_ptr_copy src s = Inr (src, s1)"
      and a: "accounted_with (tmp (cb src)) [] s1" and f: "sps s1 = sps s" "wps s1 = wps s"
      by (auto simp: accounted_def)
    have t1: "sp_at s1 this = Inr t"
      using t sp_at_cong[OF f(1), of this] by simp
    from swap_into_accounted[OF i a t1]
    obtain s2 where "swap_into U this src s1 = Inr s2" "accounted s2"
      "length (sps s2) = length (sps s1)" "wps s2 = wps s1"
      by blast
    then show ?thesis
      using e t src False r f by (simp add: copy_assign_def ends_simps kept_def)
  qed
qed

lemma step_wp_copy_assign:
  assumes acc: "accounted s" and bw: "length (wps s) < 2 ^ 64 - 1"
    and e: "ends (step U (Wp_copy_assign this other) s) s'"
  shows "kept s s'"
proof -
  from e obtain t where t: "wp_at s this = Inr t"
    using wp_at_cases[of s this] by (auto simp: weak_copy_assign_def ends_simps)
  from e t obtain src where src: "wp_at s other = Inr src"
    using wp_at_cases[of s other] by (auto simp: weak_copy_assign_def ends_simps)
  show ?thesis
  proof (cases "this = other")
    case True
    then show ?thesis
      using e t acc by (simp add: weak_copy_assign_def ends_simps kept_def)
  next
    case False
    from weak_ptr_copy_accounted[of "[]" "[]" s other src] acc bw src
    obtain s1 where r: "weak_ptr_copy src s = Inr (src, s1)"
      and a: "accounted_with [] (tmp (cb src)) s1" and f: "sps s1 = sps s" "wps s1 = wps s"
      by (auto simp: accounted_def)
    have t1: "wp_at s1 this = Inr t"
      using t wp_at_cong[OF f(2), of this] by simp
    from weak_swap_into_accounted[OF a t1]
    obtain s2 where "weak_swap_into this src s1 = Inr s2" "accounted s2"
      "sps s2 = sps s1" "length (wps s2) = length (wps s1)"
      by blast
    then show ?thesis
      using e t src False r f by (simp add: weak_copy_assign_def ends_simps kept_def)
  qed
qed

lemma step_wp_assign_shared:
  assumes acc: "accounted s" and bw: "length (wps s) < 2 ^ 64 - 1"
    and e: "ends (step U (Wp_assign_shared this other) s) s'"
  shows "kept s s'"
proof -
  from e obtain t where t: "wp_at s this = Inr t"
    using wp_at_cases[of s this] by (auto simp: weak_assign_shared_def ends_simps)
  from e t obtain src where src: "sp_at s other = Inr src"
    using sp_at_cases[of s other] by (auto simp: weak_assign_shared_def ends_simps)
  from weak_ptr_copy_accounted[of "[]" "[]" s other src] acc bw src
  obtain s1 where r: "weak_ptr_copy src s = Inr (src, s1)"
    and a: "accounted_with [] (tmp (cb src)) s1" and f: "sps s1 = sps s" "wps s1 = wps s"
    by (auto simp: accounted_def)
  have t1: "wp_at s1 this = Inr t"
    using t wp_at_cong[OF f(2), of this] by simp
  from weak_swap_into_accounted[OF a t1]
  obtain s2 where "weak_swap_into this src s1 = Inr s2" "accounted s2"
    "sps s2 = sps s1" "length (wps s2) = length (wps s1)"
    by blast
  then show ?thesis
    using e t src r f by (simp add: weak_assign_shared_def ends_simps kept_def)
qed

lemma step_sp_move_assign:
  assumes i: "inert U" and acc: "accounted s"
    and e: "ends (step U (Sp_move_assign this other) s) s'"
  shows "kept s s'"
proof -
  from e obtain t where t: "sp_at s this = Inr t"
    using sp_at_cases[of s this] by (auto simp: move_assign_def ends_simps)
  from e t obtain src where src: "sp_at s other = Inr src"
    using sp_at_cases[of s other] by (auto simp: move_assign_def ends_simps)
  show ?thesis
  proof (cases "this = other")
    case True
    then show ?thesis
      using e t acc by (simp add: move_assign_def ends_simps kept_def)
  next
    case False
    let ?s1 = "set_sp other \<lparr>cb = None, ptr = nullptr\<rparr> s"
    have a: "accounted_with (tmp (cb \<lparr>cb = cb src, ptr = ptr src\<rparr>)) [] ?s1"
      using accounted_set_sp[OF src, of "\<lparr>cb = None, ptr = nullptr\<rparr>" "[]" "[]"] acc
      by (simp add: accounted_def tmp_None)
    have t1: "sp_at ?s1 this = Inr t"
      using sp_atD[OF t] False by (simp add: sp_at_def set_sp_def)
    from swap_into_accounted[OF i a t1]
    obtain s2 where "swap_into U this \<lparr>cb = cb src, ptr = ptr src\<rparr> ?s1 = Inr s2" "accounted s2"
      "length (sps s2) = length (sps ?s1)" "wps s2 = wps ?s1"
      by blast
    then show ?thesis
      using e t src False
      by (simp add: move_assign_def shared_ptr_move_def ends_simps kept_def set_sp_def)
  qed
qed

lemma step_wp_move_assign:
  assumes acc: "accounted s" and e: "ends (step U (Wp_move_assign this other) s) s'"
  shows "kept s s'"
proof -
  from e obtain t where t: "wp_at s this = Inr t"
    using wp_at_cases[of s this] by (auto simp: weak_move_assign_def ends_simps)
  from e t obtain src where src: "wp_at s other = Inr src"
    using wp_at_cases[of s other] by (auto simp: weak_move_assign_def ends_simps)
  show ?thesis
  proof (cases "this = other")
    case True
    then show ?thesis
      using e t acc by (simp add: weak_move_assign_def ends_simps kept_def)
  next
    case False
    let ?s1 = "set_wp other \<lparr>cb = None, ptr = nullptr\<rparr> s"
    have a: "accounted_with [] (tmp (cb \<lparr>cb = cb src, ptr = ptr src\<rparr>)) ?s1"
      using accounted_set_wp[OF src, of "[]" "\<lparr>cb = None, ptr = nullptr\<rparr>" "[]"] acc
      by (simp add: accounted_def tmp_None)
    have t1: "wp_at ?s1 this = Inr t"
      using wp_atD[OF t] False by (simp add: wp_at_def set_wp_def)
    from weak_swap_into_accounted[OF a t1]
    obtain s2 where "weak_swap_into this \<lparr>cb = cb src, ptr = ptr src\<rparr> ?s1 = Inr s2"
      "accounted s2" "sps s2 = sps ?s1" "length (wps s2) = length (wps ?s1)"
      by blast
    then show ?thesis
      using e t src False
      by (simp add: weak_move_assign_def shared_ptr_move_def ends_simps kept_def set_wp_def)
  qed
qed

lemma step_sp_destroy:
  assumes i: "inert U" and acc: "accounted s" and e: "ends (step U (Sp_destroy this) s) s'"
  shows "kept s s'"
proof -
  from e obtain t where t: "sp_at s this = Inr t"
    using sp_at_cases[of s this] by (auto simp: destroy_def ends_simps)
  have "accounted_with (tmp (cb t) @ []) [] (end_sp this s)"
    using accounted_end_sp[OF t, of "[]" "[]"] acc by (simp add: accounted_def)
  from shared_ptr_dtor_accounted[OF i this]
  obtain s1 where "shared_ptr_dtor U t (end_sp this s) = Inr s1" "accounted_with [] [] s1"
    "sps s1 = sps (end_sp this s)" "wps s1 = wps (end_sp this s)"
    by blast
  then show ?thesis
    using e t by (simp add: destroy_def ends_simps kept_def accounted_def end_sp_def)
qed

lemma step_wp_destroy:
  assumes acc: "accounted s" and e: "ends (step U (Wp_destroy this) s) s'"
  shows "kept s s'"
proof -
  from e obtain t where t: "wp_at s this = Inr t"
    using wp_at_cases[of s this] by (auto simp: weak_destroy_def ends_simps)
  have "accounted_with [] (tmp (cb t) @ []) (end_wp this s)"
    using accounted_end_wp[OF t, of "[]" "[]"] acc by (simp add: accounted_def)
  from weak_ptr_dtor_accounted[OF this]
  obtain s1 where "weak_ptr_dtor t (end_wp this s) = Inr s1" "accounted_with [] [] s1"
    "sps s1 = sps (end_wp this s)" "wps s1 = wps (end_wp this s)"
    by blast
  then show ?thesis
    using e t by (simp add: weak_destroy_def ends_simps kept_def accounted_def end_wp_def)
qed

lemma step_sp_reset:
  assumes i: "inert U" and acc: "accounted s" and e: "ends (step U (Sp_reset this) s) s'"
  shows "kept s s'"
proof -
  from e obtain t where t: "sp_at s this = Inr t"
    using sp_at_cases[of s this] by (auto simp: reset_def swap_into_def ends_simps)
  have "accounted_with (tmp (cb shared_ptr_default)) [] s"
    using acc by (simp add: accounted_def shared_ptr_default_def tmp_None)
  from swap_into_accounted[OF i this t]
  obtain s1 where "swap_into U this shared_ptr_default s = Inr s1" "accounted s1"
    "length (sps s1) = length (sps s)" "wps s1 = wps s"
    by blast
  then show ?thesis
    using e by (simp add: reset_def ends_simps kept_def)
qed

lemma step_sp_reset_raw:
  assumes i: "inert U" and acc: "accounted s"
    and e: "ends (step U (Sp_reset_raw ok this p d) s) s'"
  shows "kept s s'"
proof -
  from e obtain t where t: "sp_at s this = Inr t"
    using sp_at_cases[of s this] by (auto simp: reset_raw_def ends_simps)
  show ?thesis
  proof (cases ok)
    case True
    let ?h = "\<lparr>cb = Some (length (cells s)), ptr = p\<rparr>"
    let ?s1 = "s\<lparr>cells := cells s @ [Live (ptr_block p d)]\<rparr>"
    have t1: "sp_at ?s1 this = Inr t"
      using t sp_at_cong[of ?s1 s this] by simp
    have "accounted_with (tmp (cb ?h)) [] ?s1"
      using shared_ptr_raw_accounted(2)[OF acc, of p d] by simp
    from swap_into_accounted[OF i this t1]
    obtain s2 where "swap_into U this ?h ?s1 = Inr s2" "accounted s2"
      "length (sps s2) = length (sps ?s1)" "wps s2 = wps ?s1"
      by blast
    then show ?thesis
      using e t True
      by (simp add: reset_raw_def shared_ptr_raw_accounted(1)[OF acc] ends_simps kept_def)
  next
    case False
    then have "s' = log (Deleter_call d p) s"
      using e t by (simp add: reset_raw_def shared_ptr_raw_accounted(3)[OF acc i] ends_simps)
    then show ?thesis
      using shared_ptr_raw_accounted(4)[OF acc] by (simp add: kept_def log_def)
  qed
qed

lemma step_sp_swap:
  assumes acc: "accounted s" and e: "ends (step U (Sp_swap this other) s) s'"
  shows "kept s s'"
proof -
  from e obtain t where t: "sp_at s this = Inr t"
    using sp_at_cases[of s this] by (auto simp: swap_def ends_simps)
  from e t obtain src where src: "sp_at s other = Inr src"
    using sp_at_cases[of s other] by (auto simp: swap_def ends_simps)
  from sp_atD[OF t] sp_atD[OF src]
  have lt: "this < length (sps s)" "other < length (sps s)"
    and at: "sps s ! this = Some t" "sps s ! other = Some src"
    by simp_all
  have s': "s' = s\<lparr>sps := (sps s)[this := sps s ! other, other := sps s ! this]\<rparr>"
    using e t src at by (simp add: swap_def swap_handles_def ends_simps set_sp_def handle_eta)
  have "accounted_with [] [] s' = accounted_with [] [] s"
    by (rule accounted_with_cong)
      (simp_all add: s' strong_total_def weak_total_def owners_swap[OF lt])
  then show ?thesis
    using acc by (simp add: kept_def accounted_def s')
qed

lemma step_wp_swap:
  assumes acc: "accounted s" and e: "ends (step U (Wp_swap this other) s) s'"
  shows "kept s s'"
proof -
  from e obtain t where t: "wp_at s this = Inr t"
    using wp_at_cases[of s this] by (auto simp: weak_swap_def ends_simps)
  from e t obtain src where src: "wp_at s other = Inr src"
    using wp_at_cases[of s other] by (auto simp: weak_swap_def ends_simps)
  from wp_atD[OF t] wp_atD[OF src]
  have lt: "this < length (wps s)" "other < length (wps s)"
    and at: "wps s ! this = Some t" "wps s ! other = Some src"
    by simp_all
  have s': "s' = s\<lparr>wps := (wps s)[this := wps s ! other, other := wps s ! this]\<rparr>"
    using e t src at
    by (simp add: weak_swap_def swap_handles_def ends_simps set_wp_def handle_eta)
  have "accounted_with [] [] s' = accounted_with [] [] s"
    by (rule accounted_with_cong)
      (simp_all add: s' strong_total_def weak_total_def owners_swap[OF lt])
  then show ?thesis
    using acc by (simp add: kept_def accounted_def s')
qed

theorem step_kept:
  assumes i: "inert U" and acc: "accounted s" and bs: "length (sps s) < 2 ^ 64 - 1"
    and bw: "length (wps s) < 2 ^ 64 - 1" and e: "ends (step U x s) s'"
  shows "kept s s'"
proof (cases x)
  case Sp_default
  then show ?thesis using step_sp_default[OF acc] e by simp
next
  case (Sp_raw ok p d)
  then show ?thesis using step_sp_raw[OF i acc] e by simp
next
  case (Sp_alias other p)
  then show ?thesis using step_sp_alias[OF acc bs] e by simp
next
  case (Sp_copy other)
  then show ?thesis using step_sp_copy[OF acc bs] e by simp
next
  case (Sp_move other)
  then show ?thesis using step_sp_move[OF acc] e by simp
next
  case (Sp_copy_assign this other)
  then show ?thesis using step_sp_copy_assign[OF i acc bs] e by simp
next
  case (Sp_move_assign this other)
  then show ?thesis using step_sp_move_assign[OF i acc] e by simp
next
  case (Sp_destroy this)
  then show ?thesis using step_sp_destroy[OF i acc] e by simp
next
  case (Sp_reset this)
  then show ?thesis using step_sp_reset[OF i acc] e by simp
next
  case (Sp_reset_raw ok this p d)
  then show ?thesis using step_sp_reset_raw[OF i acc] e by simp
next
  case (Sp_swap this other)
  then show ?thesis using step_sp_swap[OF acc] e by simp
next
  case (Make_shared c)
  then show ?thesis using step_make_shared[OF acc] e by simp
next
  case Wp_default
  then show ?thesis using step_wp_default[OF acc] e by simp
next
  case (Wp_copy other)
  then show ?thesis using step_wp_copy[OF acc bw] e by simp
next
  case (Wp_of_shared other)
  then show ?thesis using step_wp_of_shared[OF acc bw] e by simp
next
  case (Wp_move other)
  then show ?thesis using step_wp_move[OF acc] e by simp
next
  case (Wp_copy_assign this other)
  then show ?thesis using step_wp_copy_assign[OF acc bw] e by simp
next
  case (Wp_move_assign this other)
  then show ?thesis using step_wp_move_assign[OF acc] e by simp
next
  case (Wp_assign_shared this other)
  then show ?thesis using step_wp_assign_shared[OF acc bw] e by simp
next
  case (Wp_destroy this)
  then show ?thesis using step_wp_destroy[OF acc] e by simp
next
  case (Wp_swap this other)
  then show ?thesis using step_wp_swap[OF acc] e by simp
next
  case (Wp_lock this)
  then show ?thesis using step_wp_lock[OF acc bs] e by simp
qed

subsection \<open>Every program keeps the invariant\<close>

text \<open>
  The counters are 64 bits wide; a program of fewer than \<open>2 ^ 64 - 1\<close> operations
  cannot make one wrap around, since each operation adds at most one handle.
\<close>

lemma run_Cons_ends:
  assumes "run U (x # xs) s = Inr s'"
  obtains s1 where "ends (step U x s) s1" "run U xs s1 = Inr s'"
proof (cases "step U x s")
  case (Inr s1)
  then show ?thesis using assms that[of s1] by (simp add: ends_simps)
next
  case (Inl f)
  then show ?thesis using assms that by (cases f) (simp_all add: ends_simps)
qed

lemma run_kept:
  assumes "inert U"
  shows "accounted s \<Longrightarrow> length (sps s) + length ops < 2 ^ 64 - 1 \<Longrightarrow>
    length (wps s) + length ops < 2 ^ 64 - 1 \<Longrightarrow> run U ops s = Inr s' \<Longrightarrow> accounted s'"
proof (induction ops arbitrary: s)
  case Nil
  then show ?case by simp
next
  case (Cons x xs)
  from Cons.prems(4) obtain s1 where e: "ends (step U x s) s1" and r: "run U xs s1 = Inr s'"
    by (rule run_Cons_ends)
  have "kept s s1"
    using step_kept[OF assms Cons.prems(1) _ _ e] Cons.prems(2,3) by simp
  then have "accounted s1" "length (sps s1) + length xs < 2 ^ 64 - 1"
    "length (wps s1) + length xs < 2 ^ 64 - 1"
    using Cons.prems(2,3) by (simp_all add: kept_def)
  from Cons.IH[OF this r] show ?case .
qed

lemma reachable_accounted:
  assumes "inert U" "length ops < 2 ^ 64 - 1" "run U ops init = Inr s"
  shows "accounted s"
  using run_kept[OF assms(1) accounted_init _ _ assms(3)] assms(2)
  by (simp add: init_def)

lemma accounted_unlinks:
  assumes "accounted s"
  shows "unlinks s a \<le> 1" and "deletes s a \<le> 1"
    and "block_at s a = Inr b \<Longrightarrow> strong_ref b \<noteq> 0 \<Longrightarrow> unlinks s a = 0"
    and "block_at s a = Inr b \<Longrightarrow> deletes s a = 0"
    and "deletes s a \<le> unlinks s a"
proof -
  have at: "accounted_at [] [] s a"
    using assms by (simp add: accounted_def accounted_with_def)
  show "block_at s a = Inr b \<Longrightarrow> strong_ref b \<noteq> 0 \<Longrightarrow> unlinks s a = 0"
    using accounted_at_block(5)[OF at] by simp
  show "block_at s a = Inr b \<Longrightarrow> deletes s a = 0"
    using accounted_at_block(4)[OF at] by simp
  show "unlinks s a \<le> 1" "deletes s a \<le> 1" "deletes s a \<le> unlinks s a"
    using at by (auto simp: accounted_at_def split: option.splits cell.splits if_splits)
qed

lemma deallocation_once_when_inert:
  assumes "inert U" and "length ops < 2 ^ 64 - 1" and "run U ops init = Inr s"
  shows "count_list (trace s) (Delete_this a) \<le> 1"
    and "count_list (trace s) (Delete_this a) \<le> count_list (trace s) (Unlink a)"
    and "block_at s a = Inr b \<Longrightarrow> Delete_this a \<notin> set (trace s)"
proof -
  note acc = reachable_accounted[OF assms]
  show "count_list (trace s) (Delete_this a) \<le> 1"
    using accounted_unlinks(2)[OF acc, of a] by (simp add: deletes_def)
  show "count_list (trace s) (Delete_this a) \<le> count_list (trace s) (Unlink a)"
    using accounted_unlinks(5)[OF acc, of a] by (simp add: deletes_def unlinks_def)
  show "block_at s a = Inr b \<Longrightarrow> Delete_this a \<notin> set (trace s)"
    using accounted_unlinks(4)[OF acc, of a b] by (simp add: deletes_def count_list_0_iff)
qed

text \<open>
  What \<open>dec_strong_ref\<close> does when the user code is inert, case by case, and what follows
  for the log of a program: a block is unlinked at most once, and not while its strong
  count is positive.
\<close>

lemma dec_strong_ref_inert_cases:
  assumes "inert U"
  shows "(block_at s a = Inr b \<and> strong_ref b \<noteq> 0 \<longrightarrow>
      (strong_ref b \<noteq> 1 \<longrightarrow>
        dec_strong_ref U a s =
          Inr (s\<lparr>cells := (cells s)[a := Live (b\<lparr>strong_ref := strong_ref b - 1\<rparr>)]\<rparr>))
      \<and> (strong_ref b = 1 \<and> weak_ref b \<noteq> 0 \<longrightarrow>
        dec_strong_ref U a s =
          Inr (s\<lparr>cells := (cells s)[a := Live (b\<lparr>strong_ref := 0\<rparr>)],
                 trace := trace s @ disposal_events a b\<rparr>))
      \<and> (strong_ref b = 1 \<and> weak_ref b = 0 \<longrightarrow>
        dec_strong_ref U a s =
          Inr (s\<lparr>cells := (cells s)[a := Freed],
                 trace := trace s @ disposal_events a b @ [Delete_this a]\<rparr>))
      \<and> (kind b = Ptr_block p d \<longrightarrow> disposal_events a b = [Unlink a, Deleter_call d p])
      \<and> (kind b = Obj_block \<longrightarrow> disposal_events a b = [Unlink a, Destroy_in_place a]))
    \<and> (length ops < 2 ^ 64 - 1 \<and> run U ops init = Inr s' \<longrightarrow>
      count_list (trace s') (Unlink a') \<le> 1
      \<and> (\<forall>b'. block_at s' a' = Inr b' \<and> strong_ref b' \<noteq> 0 \<longrightarrow> Unlink a' \<notin> set (trace s')))"
proof -
  have one: "dec_strong_ref U a s = Inr (released a b s)" if "block_at s a = Inr b"
    using dec_strong_ref_inert[OF assms that] .
  have seq: "count_list (trace s') (Unlink a') \<le> 1
      \<and> (\<forall>b'. block_at s' a' = Inr b' \<and> strong_ref b' \<noteq> 0 \<longrightarrow> Unlink a' \<notin> set (trace s'))"
    if "length ops < 2 ^ 64 - 1" "run U ops init = Inr s'"
  proof -
    note acc = reachable_accounted[OF assms that]
    show ?thesis
      using accounted_unlinks(1)[OF acc, of a'] accounted_unlinks(3)[OF acc, of a']
      by (auto simp: unlinks_def count_list_0_iff)
  qed
  show ?thesis
    using one seq by (auto simp: released_def disposal_events_def)
qed

lemma dec_strong_ref_inert_cases_example:
  "dec_strong_ref no_user_code 0 example_shared =
     Inr (example_shared
          \<lparr>cells := [Live \<lparr>strong_ref = 1, weak_ref = 0, kind = Obj_block\<rparr>,
                     Live \<lparr>strong_ref = 1, weak_ref = 0, kind = Ptr_block (Object 7) 3\<rparr>]\<rparr>)
   \<and> dec_strong_ref no_user_code 0 example_state =
     Inr (example_state
          \<lparr>cells := [Live \<lparr>strong_ref = 0, weak_ref = 1, kind = Ptr_block (Object 7) 3\<rparr>,
                     Live \<lparr>strong_ref = 0, weak_ref = 2, kind = Obj_block\<rparr>],
           trace := [Unlink 1, Destroy_in_place 1, Unlink 0, Deleter_call 3 (Object 7)]\<rparr>)
   \<and> dec_strong_ref no_user_code 1 example_shared =
     Inr (example_shared
          \<lparr>cells := [Live \<lparr>strong_ref = 2, weak_ref = 0, kind = Obj_block\<rparr>, Freed],
           trace := [Unlink 1, Deleter_call 3 (Object 7), Delete_this 1]\<rparr>)
   \<and> run no_user_code [Make_shared Constructed, Wp_of_shared 0, Sp_destroy 0] init =
     Inr \<lparr>cells = [Live \<lparr>strong_ref = 0, weak_ref = 1, kind = Obj_block\<rparr>],
          trace = [Unlink 0, Destroy_in_place 0], sps = [None],
          wps = [Some \<lparr>cb = Some 0, ptr = Storage_of 0\<rparr>]\<rparr>
   \<and> count_list [Unlink 0, Destroy_in_place 0] (Unlink 0) \<le> 1"
proof -
  note i = inert_no_user_code
  let ?ops = "[Make_shared Constructed, Wp_of_shared 0, Sp_destroy 0]"
  let ?s = "\<lparr>cells = [Live \<lparr>strong_ref = 0, weak_ref = 1, kind = Obj_block\<rparr>],
          trace = [Unlink 0, Destroy_in_place 0], sps = [None],
          wps = [Some \<lparr>cb = Some 0, ptr = Storage_of 0\<rparr>]\<rparr>"
  have r: "run no_user_code ?ops init = Inr ?s"
    by (simp add: model_defs)
  have b: "block_at example_shared 0 = Inr \<lparr>strong_ref = 2, weak_ref = 0, kind = Obj_block\<rparr>"
    "block_at example_shared 1 = Inr \<lparr>strong_ref = 1, weak_ref = 0, kind = Ptr_block (Object 7) 3\<rparr>"
    "block_at example_state 0 = Inr \<lparr>strong_ref = 1, weak_ref = 1, kind = Ptr_block (Object 7) 3\<rparr>"
    by (simp_all add: block_at_def example_shared_def example_state_def)
  from dec_strong_ref_inert_cases[OF i, of example_shared 0
      "\<lparr>strong_ref = 2, weak_ref = 0, kind = Obj_block\<rparr>" p d ?ops ?s 0]
  have A: "dec_strong_ref no_user_code 0 example_shared =
     Inr (example_shared
          \<lparr>cells := [Live \<lparr>strong_ref = 1, weak_ref = 0, kind = Obj_block\<rparr>,
                     Live \<lparr>strong_ref = 1, weak_ref = 0, kind = Ptr_block (Object 7) 3\<rparr>]\<rparr>)"
    and D: "count_list [Unlink 0, Destroy_in_place 0] (Unlink 0) \<le> 1"
    using b r by (simp_all add: example_shared_def)
  from dec_strong_ref_inert_cases[OF i, of example_state 0
      "\<lparr>strong_ref = 1, weak_ref = 1, kind = Ptr_block (Object 7) 3\<rparr>" "Object 7" 3]
  have B: "dec_strong_ref no_user_code 0 example_state =
     Inr (example_state
          \<lparr>cells := [Live \<lparr>strong_ref = 0, weak_ref = 1, kind = Ptr_block (Object 7) 3\<rparr>,
                     Live \<lparr>strong_ref = 0, weak_ref = 2, kind = Obj_block\<rparr>],
           trace := [Unlink 1, Destroy_in_place 1, Unlink 0, Deleter_call 3 (Object 7)]\<rparr>)"
    using b by (simp add: example_state_def)
  from dec_strong_ref_inert_cases[OF i, of example_shared 1
      "\<lparr>strong_ref = 1, weak_ref = 0, kind = Ptr_block (Object 7) 3\<rparr>" "Object 7" 3]
  have C: "dec_strong_ref no_user_code 1 example_shared =
     Inr (example_shared
          \<lparr>cells := [Live \<lparr>strong_ref = 2, weak_ref = 0, kind = Obj_block\<rparr>, Freed],
           trace := [Unlink 1, Deleter_call 3 (Object 7), Delete_this 1]\<rparr>)"
    using b by (simp add: example_shared_def)
  from A B C D r show ?thesis by simp
qed

section \<open>The claims\<close>

subsection \<open>Giving up a strong reference\<close>

text \<open>
  Claim C1 fails on the code. The block is live, with strong count 1 and weak count 1,
  and its only observer is a \<open>weak_ptr\<close> member of the pointee. \<open>dec_strong_ref\<close> brings
  the strong count to 0 and calls \<open>unlink\<close>, which runs the pointee's destructor; the
  member's destructor calls \<open>dec_weak_ref\<close>, which finds both counts 0 and runs
  \<open>delete this\<close>. The claim has \<open>dec_strong_ref\<close> free the block after the disposal if
  the weak count is 0; the code instead tests \<open>strong_ref_\<close> and \<open>weak_ref_\<close> of a block
  that is already freed.
\<close>

theorem dec_strong_ref_reads_freed_block:
  "block_at
     \<lparr>cells = [Live \<lparr>strong_ref = 1, weak_ref = 1, kind = Obj_block\<rparr>], trace = [],
      sps = [None], wps = [Some \<lparr>cb = Some 0, ptr = Storage_of 0\<rparr>]\<rparr> 0 =
     Inr \<lparr>strong_ref = 1, weak_ref = 1, kind = Obj_block\<rparr>
   \<and> dec_weak_ref 0
       \<lparr>cells = [Live \<lparr>strong_ref = 0, weak_ref = 1, kind = Obj_block\<rparr>],
        trace = [Unlink 0, Destroy_in_place 0], sps = [None], wps = [None]\<rparr> =
     Inr \<lparr>cells = [Freed], trace = [Unlink 0, Destroy_in_place 0, Delete_this 0],
          sps = [None], wps = [None]\<rparr>
   \<and> block_at
       \<lparr>cells = [Freed], trace = [Unlink 0, Destroy_in_place 0, Delete_this 0],
        sps = [None], wps = [None]\<rparr> 0 = Inl Undefined_behaviour
   \<and> dec_strong_ref (member_weak_ptr 0 0) 0
       \<lparr>cells = [Live \<lparr>strong_ref = 1, weak_ref = 1, kind = Obj_block\<rparr>], trace = [],
        sps = [None], wps = [Some \<lparr>cb = Some 0, ptr = Storage_of 0\<rparr>]\<rparr> =
     Inl Undefined_behaviour"
  by (simp add: model_defs member_weak_ptr_def)

subsection \<open>A weak handle inside the pointee\<close>

text \<open>
  Claim C2 fails on the code. The pointee made by \<open>make_shared\<close> has a \<open>weak_ptr\<close>
  member that observes the pointee's own block. When the only owning handle is destroyed,
  \<open>dec_strong_ref\<close> brings the strong count to 0 and calls \<open>unlink\<close>; the pointee's
  destructor destroys the member, whose \<open>dec_weak_ref\<close> finds both counts 0 and runs
  \<open>delete this\<close>. Back in \<open>dec_strong_ref\<close>, the second test reads \<open>strong_ref_\<close> and
  \<open>weak_ref_\<close> of the block just freed.
\<close>

theorem weak_member_use_after_free:
  "run (member_weak_ptr 0 0) [Make_shared Constructed, Wp_default, Wp_assign_shared 0 0] init =
     Inr \<lparr>cells = [Live \<lparr>strong_ref = 1, weak_ref = 1, kind = Obj_block\<rparr>], trace = [],
          sps = [Some \<lparr>cb = Some 0, ptr = Storage_of 0\<rparr>],
          wps = [Some \<lparr>cb = Some 0, ptr = Storage_of 0\<rparr>]\<rparr>
   \<and> unlink (member_weak_ptr 0 0) 0
       \<lparr>cells = [Live \<lparr>strong_ref = 0, weak_ref = 1, kind = Obj_block\<rparr>], trace = [],
        sps = [None], wps = [Some \<lparr>cb = Some 0, ptr = Storage_of 0\<rparr>]\<rparr> =
     Inr \<lparr>cells = [Freed], trace = [Unlink 0, Destroy_in_place 0, Delete_this 0],
          sps = [None], wps = [None]\<rparr>
   \<and> destroy (member_weak_ptr 0 0) 0
       \<lparr>cells = [Live \<lparr>strong_ref = 1, weak_ref = 1, kind = Obj_block\<rparr>], trace = [],
        sps = [Some \<lparr>cb = Some 0, ptr = Storage_of 0\<rparr>],
        wps = [Some \<lparr>cb = Some 0, ptr = Storage_of 0\<rparr>]\<rparr> = Inl Undefined_behaviour
   \<and> run (member_weak_ptr 0 0)
       [Make_shared Constructed, Wp_default, Wp_assign_shared 0 0, Sp_destroy 0] init =
     Inl Undefined_behaviour"
  by (simp add: model_defs member_weak_ptr_def)

subsection \<open>Promotion of a weak handle\<close>

text \<open>
  Claim C3. \<open>lock()\<close> returns the null owning handle, and changes nothing, when the
  weak handle has no block, and when its block's strong count is 0, whatever the weak
  count is. Otherwise it adds one to the strong count and returns an owning handle with
  the same block and the same stored pointer, whose \<open>use_count()\<close> is the strong count
  before the call plus one (as a number too, unless the counter was at its maximum).
\<close>

theorem lock_promotes:
  "(cb w = None \<longrightarrow> lock w s = Inr (shared_ptr_default, s))
   \<and> (cb w = Some a \<and> block_at s a = Inr b \<and> strong_ref b = 0 \<longrightarrow>
        lock w s = Inr (shared_ptr_default, s))
   \<and> (cb w = Some a \<and> block_at s a = Inr b \<and> strong_ref b \<noteq> 0 \<longrightarrow>
        lock w s = Inr (\<lparr>cb = Some a, ptr = ptr w\<rparr>,
                        put_block a (b\<lparr>strong_ref := strong_ref b + 1\<rparr>) s)
        \<and> use_count \<lparr>cb = Some a, ptr = ptr w\<rparr>
             (put_block a (b\<lparr>strong_ref := strong_ref b + 1\<rparr>) s) = Inr (strong_ref b + 1)
        \<and> (strong_ref b \<noteq> - 1 \<longrightarrow> unat (strong_ref b + 1) = unat (strong_ref b) + 1))
   \<and> cb shared_ptr_default = None \<and> ptr shared_ptr_default = nullptr
   \<and> use_count shared_ptr_default s = Inr 0"
proof -
  have n: "cb w = None \<Longrightarrow> lock w s = Inr (shared_ptr_default, s)"
    by (simp add: lock_def)
  have z: "cb w = Some a \<Longrightarrow> block_at s a = Inr b \<Longrightarrow> strong_ref b = 0 \<Longrightarrow>
      lock w s = Inr (shared_ptr_default, s)"
    by (simp add: lock_def get_strong_ref_count_def)
  have p: "lock w s = Inr (\<lparr>cb = Some a, ptr = ptr w\<rparr>,
                        put_block a (b\<lparr>strong_ref := strong_ref b + 1\<rparr>) s)"
    if "cb w = Some a" "block_at s a = Inr b" "strong_ref b \<noteq> 0"
    using that by (simp add: lock_def get_strong_ref_count_def inc_strong_ref_def)
  have u: "use_count \<lparr>cb = Some a, ptr = ptr w\<rparr>
             (put_block a (b\<lparr>strong_ref := strong_ref b + 1\<rparr>) s) = Inr (strong_ref b + 1)"
    if "block_at s a = Inr b"
    using block_atD[OF that]
    by (simp add: use_count_def get_strong_ref_count_def block_at_put_block)
  have w: "strong_ref b \<noteq> - 1 \<Longrightarrow> unat (strong_ref b + 1) = unat (strong_ref b) + 1"
    by (rule unat_inc)
  show ?thesis
    using n z p u w by (simp add: shared_ptr_default_def use_count_def)
qed

theorem lock_promotes_witness:
  "lock \<lparr>cb = Some 0, ptr = Object 7\<rparr> example_state =
     Inr (\<lparr>cb = Some 0, ptr = Object 7\<rparr>,
          example_state\<lparr>cells :=
            [Live \<lparr>strong_ref = 2, weak_ref = 1, kind = Ptr_block (Object 7) 3\<rparr>,
             Live \<lparr>strong_ref = 0, weak_ref = 2, kind = Obj_block\<rparr>]\<rparr>)
   \<and> lock \<lparr>cb = Some 1, ptr = Storage_of 1\<rparr> example_state = Inr (shared_ptr_default, example_state)
   \<and> lock \<lparr>cb = None, ptr = nullptr\<rparr> example_state = Inr (shared_ptr_default, example_state)"
  using
    lock_promotes[of "\<lparr>cb = Some 0, ptr = Object 7\<rparr>" example_state 0
      "\<lparr>strong_ref = 1, weak_ref = 1, kind = Ptr_block (Object 7) 3\<rparr>"]
    lock_promotes[of "\<lparr>cb = Some 1, ptr = Storage_of 1\<rparr>" example_state 1
      "\<lparr>strong_ref = 0, weak_ref = 2, kind = Obj_block\<rparr>"]
    lock_promotes[of "\<lparr>cb = None, ptr = nullptr\<rparr>" example_state]
  by (simp add: example_state_def block_at_def put_block_def)

subsection \<open>\<open>use_count()\<close> counts the owning handles\<close>

text \<open>
  Claim C4. After every program of constructions, copies, moves, assignments, resets,
  swaps, promotions and destructions of owning and weak handles, run from the state
  without handles with inert user code, \<open>use_count()\<close> of a live owning handle is the
  number of live owning handles that refer to the same block, and 0 for a handle without
  a block. The program has fewer than \<open>2 ^ 64 - 1\<close> operations, so that no counter of
  type \<open>size_t\<close> wraps around.
\<close>

theorem use_count_counts_live_owners:
  assumes "inert U" and "length ops < 2 ^ 64 - 1" and "run U ops init = Inr s"
    and "sp_at s x = Inr h"
  shows "\<exists>n. use_count h s = Inr n
    \<and> unat n = (case cb h of Some a \<Rightarrow> owners a (sps s) | None \<Rightarrow> 0)"
proof (cases "cb h")
  case None
  then show ?thesis by (simp add: use_count_def)
next
  case (Some a)
  have "accounted_with [] [] s"
    using reachable_accounted[OF assms(1-3)] by (simp add: accounted_def)
  from stored_owner[OF this assms(4) Some]
  show ?thesis
    by (auto simp: use_count_def Some get_strong_ref_count_def strong_total_def)
qed

theorem use_count_counts_live_owners_witness:
  "run no_user_code [Make_shared Constructed, Sp_copy 0, Wp_of_shared 1, Sp_copy 1, Sp_destroy 0] init =
     Inr \<lparr>cells = [Live \<lparr>strong_ref = 2, weak_ref = 1, kind = Obj_block\<rparr>], trace = [],
          sps = [None, Some \<lparr>cb = Some 0, ptr = Storage_of 0\<rparr>,
                 Some \<lparr>cb = Some 0, ptr = Storage_of 0\<rparr>],
          wps = [Some \<lparr>cb = Some 0, ptr = Storage_of 0\<rparr>]\<rparr>
   \<and> (\<exists>n. use_count \<lparr>cb = Some 0, ptr = Storage_of 0\<rparr>
          \<lparr>cells = [Live \<lparr>strong_ref = 2, weak_ref = 1, kind = Obj_block\<rparr>], trace = [],
           sps = [None, Some \<lparr>cb = Some 0, ptr = Storage_of 0\<rparr>,
                  Some \<lparr>cb = Some 0, ptr = Storage_of 0\<rparr>],
           wps = [Some \<lparr>cb = Some 0, ptr = Storage_of 0\<rparr>]\<rparr> = Inr n
        \<and> unat n = 2)"
proof -
  let ?ops = "[Make_shared Constructed, Sp_copy 0, Wp_of_shared 1, Sp_copy 1, Sp_destroy 0]"
  let ?s = "\<lparr>cells = [Live \<lparr>strong_ref = 2, weak_ref = 1, kind = Obj_block\<rparr>], trace = [],
          sps = [None, Some \<lparr>cb = Some 0, ptr = Storage_of 0\<rparr>,
                 Some \<lparr>cb = Some 0, ptr = Storage_of 0\<rparr>],
          wps = [Some \<lparr>cb = Some 0, ptr = Storage_of 0\<rparr>]\<rparr>"
  have r: "run no_user_code ?ops init = Inr ?s"
    by (simp add: model_defs)
  have l: "length ?ops < 2 ^ 64 - 1"
    by simp
  have h: "sp_at ?s 2 = Inr \<lparr>cb = Some 0, ptr = Storage_of 0\<rparr>"
    by (simp add: sp_at_def)
  from use_count_counts_live_owners[OF inert_no_user_code l r h]
  have "\<exists>n. use_count \<lparr>cb = Some 0, ptr = Storage_of 0\<rparr> ?s = Inr n \<and> unat n = 2"
    by (simp add: owners_def holds_def numeral_2_eq_2)
  with r show ?thesis
    by blast
qed

subsection \<open>Construction from a raw pointer, and \<open>reset(p, d)\<close>\<close>

text \<open>
  Claim C5. When the allocation of the control block fails, the constructor calls the
  deleter on the raw pointer, once, and the exception goes on: no handle is returned
  (whatever the deleter does), no block exists. When it succeeds the result owns \<open>p\<close>
  through a fresh block with strong count 1 and nothing has been logged. \<open>reset(p, d)\<close>
  follows the same rule: on failure \<open>*this\<close> keeps what it had; on success \<open>*this\<close> owns
  \<open>p\<close> through the fresh block, whose \<open>unlink\<close> has not run, and the only calls
  logged are those of giving up the reference \<open>*this\<close> held before. Where a deleter
  runs, it is taken to be inert.
\<close>

theorem raw_pointer_failure_safety:
  "(inert U \<longrightarrow>
      shared_ptr_raw U False p d s = Inl (Thrown (s\<lparr>trace := trace s @ [Deleter_call d p]\<rparr>)))
   \<and> (\<forall>r. shared_ptr_raw U False p d s \<noteq> Inr r)
   \<and> shared_ptr_raw U True p d s =
       Inr (\<lparr>cb = Some (length (cells s)), ptr = p\<rparr>,
            s\<lparr>cells := cells s @ [Live \<lparr>strong_ref = 1, weak_ref = 0, kind = Ptr_block p d\<rparr>]\<rparr>)
   \<and> use_count \<lparr>cb = Some (length (cells s)), ptr = p\<rparr>
        (s\<lparr>cells := cells s @ [Live \<lparr>strong_ref = 1, weak_ref = 0, kind = Ptr_block p d\<rparr>]\<rparr>)
       = Inr 1
   \<and> (inert U \<and> sp_at s this = Inr t \<longrightarrow>
        reset_raw U False this p d s = Inl (Thrown (s\<lparr>trace := trace s @ [Deleter_call d p]\<rparr>)))
   \<and> (sp_at s this = Inr t \<and> cb t = None \<longrightarrow>
        reset_raw U True this p d s =
          Inr (s\<lparr>cells := cells s @ [Live \<lparr>strong_ref = 1, weak_ref = 0, kind = Ptr_block p d\<rparr>],
                 sps := (sps s)[this := Some \<lparr>cb = Some (length (cells s)), ptr = p\<rparr>]\<rparr>))
   \<and> (inert U \<and> sp_at s this = Inr t \<and> cb t = Some a0 \<and> block_at s a0 = Inr b0 \<longrightarrow>
        (\<exists>s' es. reset_raw U True this p d s = Inr s'
           \<and> s' = released a0 b0
                (s\<lparr>cells := cells s @ [Live \<lparr>strong_ref = 1, weak_ref = 0, kind = Ptr_block p d\<rparr>],
                   sps := (sps s)[this := Some \<lparr>cb = Some (length (cells s)), ptr = p\<rparr>]\<rparr>)
           \<and> sp_at s' this = Inr \<lparr>cb = Some (length (cells s)), ptr = p\<rparr>
           \<and> block_at s' (length (cells s)) =
                Inr \<lparr>strong_ref = 1, weak_ref = 0, kind = Ptr_block p d\<rparr>
           \<and> trace s' = trace s @ es \<and> Unlink (length (cells s)) \<notin> set es))"
proof -
  let ?a = "length (cells s)"
  let ?b = "\<lparr>strong_ref = 1, weak_ref = 0, kind = Ptr_block p d\<rparr>"
  let ?h = "\<lparr>cb = Some ?a, ptr = p\<rparr>"
  let ?s1 = "s\<lparr>cells := cells s @ [Live ?b]\<rparr>"
  let ?s2 = "s\<lparr>cells := cells s @ [Live ?b], sps := (sps s)[this := Some ?h]\<rparr>"
  have fail: "shared_ptr_raw U False p d s = Inl (Thrown (s\<lparr>trace := trace s @ [Deleter_call d p]\<rparr>))"
    if "inert U"
    by (simp add: shared_ptr_raw_def call_deleter_def inertD[OF that] log_def)
  have never: "shared_ptr_raw U False p d s \<noteq> Inr r" for r
    by (cases "call_deleter U d p s") (simp_all add: shared_ptr_raw_def)
  have ok: "shared_ptr_raw U True p d s = Inr (?h, ?s1)"
    by (simp add: shared_ptr_raw_def new_def ptr_block_def)
  have cnt: "use_count ?h ?s1 = Inr 1"
    by (simp add: use_count_def get_strong_ref_count_def block_at_def)
  have rfail: "reset_raw U False this p d s = Inl (Thrown (s\<lparr>trace := trace s @ [Deleter_call d p]\<rparr>))"
    if "inert U" "sp_at s this = Inr t"
    by (simp add: reset_raw_def that fail)
  have at1: "sp_at ?s1 this = Inr t" if "sp_at s this = Inr t"
    using that sp_at_cong[of ?s1 s this] by simp
  have rnone: "reset_raw U True this p d s = Inr ?s2"
    if "sp_at s this = Inr t" "cb t = None"
    by (simp add: reset_raw_def that ok at1 swap_into_def swap_handles_def shared_ptr_dtor_def
        set_sp_def)
  have rsome: "\<exists>s' es. reset_raw U True this p d s = Inr s' \<and> s' = released a0 b0 ?s2
           \<and> sp_at s' this = Inr ?h \<and> block_at s' ?a = Inr ?b
           \<and> trace s' = trace s @ es \<and> Unlink ?a \<notin> set es"
    if i: "inert U" and t: "sp_at s this = Inr t" and c: "cb t = Some a0"
      and b0: "block_at s a0 = Inr b0"
  proof -
    from block_atD[OF b0] have lt: "a0 < ?a" and cell: "cells s ! a0 = Live b0"
      by simp_all
    have b2: "block_at ?s2 a0 = Inr b0"
      using lt cell by (simp add: block_at_def nth_append)
    have r: "reset_raw U True this p d s = Inr (released a0 b0 ?s2)"
      using dec_strong_ref_inert[OF i b2]
      by (simp add: reset_raw_def t ok at1 swap_into_def swap_handles_def shared_ptr_dtor_def
          set_sp_def c)
    have h: "sp_at (released a0 b0 ?s2) this = Inr ?h"
      using sp_atD[OF t] by (simp only: released_sp_at) (simp add: sp_at_def)
    have n: "block_at (released a0 b0 ?s2) ?a = Inr ?b"
      using lt by (simp only: released_block_at) (simp add: block_at_def)
    obtain es where "trace (released a0 b0 ?s2) = trace ?s2 @ es"
      and "\<forall>a'. a' \<noteq> a0 \<longrightarrow> Unlink a' \<notin> set es \<and> Delete_this a' \<notin> set es"
      using released_trace[of a0 b0 ?s2] by blast
    then have "trace (released a0 b0 ?s2) = trace s @ es \<and> Unlink ?a \<notin> set es"
      using lt by auto
    with r h n show ?thesis by blast
  qed
  show ?thesis
    using fail never ok cnt rfail rnone rsome by blast
qed

theorem raw_pointer_failure_safety_witness:
  "shared_ptr_raw no_user_code False (Object 9) 4 example_state =
     Inl (Thrown (example_state\<lparr>trace := [Unlink 1, Destroy_in_place 1, Deleter_call 4 (Object 9)]\<rparr>))
   \<and> reset_raw no_user_code False 0 (Object 9) 4 example_state =
     Inl (Thrown (example_state\<lparr>trace := [Unlink 1, Destroy_in_place 1, Deleter_call 4 (Object 9)]\<rparr>))
   \<and> reset_raw no_user_code True 1 (Object 9) 4 example_state =
     Inr (example_state
          \<lparr>cells := cells example_state @
             [Live \<lparr>strong_ref = 1, weak_ref = 0, kind = Ptr_block (Object 9) 4\<rparr>],
           sps := [Some \<lparr>cb = Some 0, ptr = Object 7\<rparr>, Some \<lparr>cb = Some 2, ptr = Object 9\<rparr>]\<rparr>)
   \<and> reset_raw no_user_code True 0 (Object 9) 4 example_state =
     Inr (example_state
          \<lparr>cells := [Live \<lparr>strong_ref = 0, weak_ref = 1, kind = Ptr_block (Object 7) 3\<rparr>,
                     Live \<lparr>strong_ref = 0, weak_ref = 2, kind = Obj_block\<rparr>,
                     Live \<lparr>strong_ref = 1, weak_ref = 0, kind = Ptr_block (Object 9) 4\<rparr>],
           trace := [Unlink 1, Destroy_in_place 1, Unlink 0, Deleter_call 3 (Object 7)],
           sps := [Some \<lparr>cb = Some 2, ptr = Object 9\<rparr>, Some \<lparr>cb = None, ptr = nullptr\<rparr>]\<rparr>)"
proof -
  note i = inert_no_user_code
  have t0: "sp_at example_state 0 = Inr \<lparr>cb = Some 0, ptr = Object 7\<rparr>"
    and t1: "sp_at example_state 1 = Inr \<lparr>cb = None, ptr = nullptr\<rparr>"
    and b0: "block_at example_state 0 =
      Inr \<lparr>strong_ref = 1, weak_ref = 1, kind = Ptr_block (Object 7) 3\<rparr>"
    by (simp_all add: sp_at_def block_at_def example_state_def)
  from raw_pointer_failure_safety
    [of no_user_code "Object 9" 4 example_state 0 "\<lparr>cb = Some 0, ptr = Object 7\<rparr>" 0
      "\<lparr>strong_ref = 1, weak_ref = 1, kind = Ptr_block (Object 7) 3\<rparr>"]
  have A: "shared_ptr_raw no_user_code False (Object 9) 4 example_state =
     Inl (Thrown (example_state\<lparr>trace := [Unlink 1, Destroy_in_place 1, Deleter_call 4 (Object 9)]\<rparr>))"
    and B: "reset_raw no_user_code False 0 (Object 9) 4 example_state =
     Inl (Thrown (example_state\<lparr>trace := [Unlink 1, Destroy_in_place 1, Deleter_call 4 (Object 9)]\<rparr>))"
    and D: "reset_raw no_user_code True 0 (Object 9) 4 example_state =
     Inr (example_state
          \<lparr>cells := [Live \<lparr>strong_ref = 0, weak_ref = 1, kind = Ptr_block (Object 7) 3\<rparr>,
                     Live \<lparr>strong_ref = 0, weak_ref = 2, kind = Obj_block\<rparr>,
                     Live \<lparr>strong_ref = 1, weak_ref = 0, kind = Ptr_block (Object 9) 4\<rparr>],
           trace := [Unlink 1, Destroy_in_place 1, Unlink 0, Deleter_call 3 (Object 7)],
           sps := [Some \<lparr>cb = Some 2, ptr = Object 9\<rparr>, Some \<lparr>cb = None, ptr = nullptr\<rparr>]\<rparr>)"
    using i t0 b0
    by (simp_all add: released_def disposal_events_def) (simp_all add: example_state_def)
  from raw_pointer_failure_safety
    [of no_user_code "Object 9" 4 example_state 1 "\<lparr>cb = None, ptr = nullptr\<rparr>"]
  have C: "reset_raw no_user_code True 1 (Object 9) 4 example_state =
     Inr (example_state
          \<lparr>cells := cells example_state @
             [Live \<lparr>strong_ref = 1, weak_ref = 0, kind = Ptr_block (Object 9) 4\<rparr>],
           sps := [Some \<lparr>cb = Some 0, ptr = Object 7\<rparr>, Some \<lparr>cb = Some 2, ptr = Object 9\<rparr>]\<rparr>)"
    using t1 by (simp add: example_state_def)
  from A B C D show ?thesis by simp
qed

subsection \<open>\<open>make_shared\<close>\<close>

text \<open>
  Claim C6. When the constructor of \<open>T\<close> throws, \<open>make_shared\<close> returns no handle, logs
  no call (no disposal) and leaves no live block behind: the storage is given back. When
  it succeeds there is exactly one more block, with strong count 1 and weak count 0,
  and the handle returned refers to it without another increment.
\<close>

theorem make_shared_construction:
  "make_shared Bad_alloc s = Inl (Thrown s)
   \<and> make_shared Ctor_throws s = Inl (Thrown (s\<lparr>cells := cells s @ [Freed]\<rparr>))
   \<and> live_blocks (s\<lparr>cells := cells s @ [Freed]\<rparr>) = live_blocks s
   \<and> step U (Make_shared Ctor_throws) s = Inl (Thrown (s\<lparr>cells := cells s @ [Freed]\<rparr>))
   \<and> make_shared Constructed s =
       Inr (\<lparr>cb = Some (length (cells s)), ptr = Storage_of (length (cells s))\<rparr>,
            s\<lparr>cells := cells s @ [Live \<lparr>strong_ref = 1, weak_ref = 0, kind = Obj_block\<rparr>]\<rparr>)
   \<and> use_count \<lparr>cb = Some (length (cells s)), ptr = Storage_of (length (cells s))\<rparr>
        (s\<lparr>cells := cells s @ [Live \<lparr>strong_ref = 1, weak_ref = 0, kind = Obj_block\<rparr>]\<rparr>)
       = Inr 1
   \<and> live_blocks (s\<lparr>cells := cells s @ [Live \<lparr>strong_ref = 1, weak_ref = 0, kind = Obj_block\<rparr>]\<rparr>)
       = live_blocks s + 1"
  by (simp add: make_shared_def live_blocks_def begin_sp_def new_def obj_block_def
      shared_ptr_of_block_def get_ptr_def use_count_def get_strong_ref_count_def block_at_def)

subsection \<open>Copy assignment\<close>



subsection \<open>Equality\<close>

text \<open>
  Claim C8. \<open>a == b\<close> is the identity of the stored pointers and \<open>a != b\<close> its negation;
  the blocks play no part. So a handle made by the aliasing constructor is equal to every
  handle that stores the same pointer, and two handles whose \<open>get()\<close> is null, the
  default-constructed ones among them, are equal.
\<close>

theorem equality_is_pointer_identity:
  "op_eq x y = (ptr x = ptr y) \<and> op_neq x y = (\<not> op_eq x y)
   \<and> op_eq \<lparr>cb = c1, ptr = p\<rparr> \<lparr>cb = c2, ptr = p\<rparr>
   \<and> (\<forall>h s1. shared_ptr_alias other p s = Inr (h, s1) \<and> ptr y = p \<longrightarrow> op_eq h y)
   \<and> op_eq shared_ptr_default shared_ptr_default
   \<and> (get x = nullptr \<and> get y = nullptr \<longrightarrow> op_eq x y)"
  by (auto simp: op_eq_def op_neq_def get_def shared_ptr_alias_def shared_ptr_default_def
      split: option.splits sum.splits elim!: and_then.elims)

theorem equality_is_pointer_identity_witness:
  "op_eq \<lparr>cb = None, ptr = Object 7\<rparr> \<lparr>cb = Some 0, ptr = Object 7\<rparr>
   \<and> shared_ptr_alias \<lparr>cb = None, ptr = nullptr\<rparr> (Object 7) example_state =
        Inr (\<lparr>cb = None, ptr = Object 7\<rparr>, example_state)
   \<and> op_eq \<lparr>cb = Some 0, ptr = nullptr\<rparr> \<lparr>cb = None, ptr = nullptr\<rparr>"
proof -
  have a: "shared_ptr_alias \<lparr>cb = None, ptr = nullptr\<rparr> (Object 7) example_state =
        Inr (\<lparr>cb = None, ptr = Object 7\<rparr>, example_state)"
    by (simp add: shared_ptr_alias_def)
  from equality_is_pointer_identity
    [of x "\<lparr>cb = Some 0, ptr = Object 7\<rparr>" c1 "Object 7" c2 "\<lparr>cb = None, ptr = nullptr\<rparr>" example_state]
  have "op_eq \<lparr>cb = None, ptr = Object 7\<rparr> \<lparr>cb = Some 0, ptr = Object 7\<rparr>"
    using a by simp
  moreover from equality_is_pointer_identity
    [of "\<lparr>cb = Some 0, ptr = nullptr\<rparr>" "\<lparr>cb = None, ptr = nullptr\<rparr>"]
  have "op_eq \<lparr>cb = Some 0, ptr = nullptr\<rparr> \<lparr>cb = None, ptr = nullptr\<rparr>"
    by (simp add: get_def)
  ultimately show ?thesis using a by simp
qed

subsection \<open>Aliasing an empty handle\<close>

text \<open>
  Claim C9. The aliasing constructor applied to a source without a block and a pointer
  \<open>p\<close> that is not null yields a handle without a block: \<open>get()\<close> is \<open>p\<close>, the handle
  converts to \<open>true\<close>, \<open>use_count()\<close> is 0, and no count has changed. Its destructor and
  \<open>reset()\<close> touch neither a block nor the log.
\<close>

theorem alias_of_empty_has_no_block:
  assumes "cb other = None" and "p \<noteq> nullptr"
  shows "shared_ptr_alias other p s = Inr (\<lparr>cb = None, ptr = p\<rparr>, s)
    \<and> get \<lparr>cb = None, ptr = p\<rparr> = p
    \<and> to_bool \<lparr>cb = None, ptr = p\<rparr>
    \<and> use_count \<lparr>cb = None, ptr = p\<rparr> s = Inr 0
    \<and> shared_ptr_dtor U \<lparr>cb = None, ptr = p\<rparr> s = Inr s
    \<and> (sp_at s i = Inr \<lparr>cb = None, ptr = p\<rparr> \<longrightarrow>
         destroy U i s = Inr (s\<lparr>sps := (sps s)[i := None]\<rparr>)
         \<and> reset U i s = Inr (s\<lparr>sps := (sps s)[i := Some shared_ptr_default]\<rparr>))"
  using assms
  by (simp add: shared_ptr_alias_def get_def to_bool_def use_count_def shared_ptr_dtor_def
      destroy_def reset_def swap_into_def swap_handles_def shared_ptr_default_def end_sp_def
      set_sp_def)

theorem alias_of_empty_has_no_block_witness:
  "shared_ptr_alias \<lparr>cb = None, ptr = nullptr\<rparr> (Object 7) init =
     Inr (\<lparr>cb = None, ptr = Object 7\<rparr>, init)
   \<and> use_count \<lparr>cb = None, ptr = Object 7\<rparr> init = Inr 0
   \<and> destroy no_user_code 0 (init\<lparr>sps := [Some \<lparr>cb = None, ptr = Object 7\<rparr>]\<rparr>) =
       Inr (init\<lparr>sps := [None]\<rparr>)
   \<and> reset no_user_code 0 (init\<lparr>sps := [Some \<lparr>cb = None, ptr = Object 7\<rparr>]\<rparr>) =
       Inr (init\<lparr>sps := [Some \<lparr>cb = None, ptr = nullptr\<rparr>]\<rparr>)"
  using
    alias_of_empty_has_no_block[of "\<lparr>cb = None, ptr = nullptr\<rparr>" "Object 7" init]
    alias_of_empty_has_no_block[of "\<lparr>cb = None, ptr = nullptr\<rparr>" "Object 7"
      "init\<lparr>sps := [Some \<lparr>cb = None, ptr = Object 7\<rparr>]\<rparr>" no_user_code 0]
  by (simp add: sp_at_def init_def shared_ptr_default_def shared_ptr_alias_def)

subsection \<open>A null raw pointer\<close>

text \<open>
  Claim C10. \<open>shared_ptr(p, d)\<close> with \<open>p\<close> a null pointer of type \<open>Y*\<close> allocates a
  block all the same: \<open>use_count()\<close> is 1 (it is 0 for a default-constructed handle),
  \<open>get()\<close> is null, the handle converts to \<open>false\<close> and is equal to a default-constructed
  one. Its destructor calls the deleter (an inert one) once, on the null pointer, and
  frees the block.
\<close>

theorem null_raw_pointer_gets_a_block:
  "shared_ptr_raw U True nullptr d s =
     Inr (\<lparr>cb = Some (length (cells s)), ptr = nullptr\<rparr>,
          s\<lparr>cells := cells s @ [Live \<lparr>strong_ref = 1, weak_ref = 0, kind = Ptr_block nullptr d\<rparr>]\<rparr>)
   \<and> use_count \<lparr>cb = Some (length (cells s)), ptr = nullptr\<rparr>
        (s\<lparr>cells := cells s @ [Live \<lparr>strong_ref = 1, weak_ref = 0, kind = Ptr_block nullptr d\<rparr>]\<rparr>)
      = Inr 1
   \<and> get \<lparr>cb = Some (length (cells s)), ptr = nullptr\<rparr> = nullptr
   \<and> \<not> to_bool \<lparr>cb = Some (length (cells s)), ptr = nullptr\<rparr>
   \<and> op_eq \<lparr>cb = Some (length (cells s)), ptr = nullptr\<rparr> shared_ptr_default
   \<and> cb shared_ptr_default = None
   \<and> use_count shared_ptr_default s = Inr 0
   \<and> (inert U \<longrightarrow>
        shared_ptr_dtor U \<lparr>cb = Some (length (cells s)), ptr = nullptr\<rparr>
          (s\<lparr>cells := cells s @ [Live \<lparr>strong_ref = 1, weak_ref = 0, kind = Ptr_block nullptr d\<rparr>]\<rparr>)
        = Inr (s\<lparr>cells := cells s @ [Freed],
                trace := trace s @ [Unlink (length (cells s)), Deleter_call d nullptr,
                                    Delete_this (length (cells s))]\<rparr>))"
proof -
  let ?a = "length (cells s)"
  let ?b = "\<lparr>strong_ref = 1, weak_ref = 0, kind = Ptr_block nullptr d\<rparr>"
  let ?s1 = "s\<lparr>cells := cells s @ [Live ?b]\<rparr>"
  have blk: "block_at ?s1 ?a = Inr ?b"
    by (simp add: block_at_def)
  have ctor: "shared_ptr_raw U True nullptr d s = Inr (\<lparr>cb = Some ?a, ptr = nullptr\<rparr>, ?s1)"
    by (simp add: shared_ptr_raw_def new_def ptr_block_def)
  have cnt: "use_count \<lparr>cb = Some ?a, ptr = nullptr\<rparr> ?s1 = Inr 1"
    by (simp add: use_count_def get_strong_ref_count_def blk)
  have dtor: "shared_ptr_dtor U \<lparr>cb = Some ?a, ptr = nullptr\<rparr> ?s1 =
      Inr (s\<lparr>cells := cells s @ [Freed],
             trace := trace s @ [Unlink ?a, Deleter_call d nullptr, Delete_this ?a]\<rparr>)"
    if "inert U"
    by (simp add: shared_ptr_dtor_def dec_strong_ref_inert[OF that blk] released_def
        disposal_events_def)
  show ?thesis
    using ctor cnt dtor
    by (simp add: get_def to_bool_def op_eq_def shared_ptr_default_def use_count_def)
qed

theorem null_raw_pointer_gets_a_block_witness:
  "inert no_user_code
   \<and> shared_ptr_dtor no_user_code \<lparr>cb = Some 0, ptr = nullptr\<rparr>
       (init\<lparr>cells := [Live \<lparr>strong_ref = 1, weak_ref = 0, kind = Ptr_block nullptr 3\<rparr>]\<rparr>)
     = Inr (init\<lparr>cells := [Freed], trace := [Unlink 0, Deleter_call 3 nullptr, Delete_this 0]\<rparr>)"
proof -
  have i: "inert no_user_code"
    by (simp add: inert_def no_user_code_def)
  then show ?thesis
    using null_raw_pointer_gets_a_block[of no_user_code 3 init]
    by (simp add: init_def)
qed

end
